theory Spec2Isabelle
  imports Main "HOL-Library.Word" "HOL-Library.Code_Target_Nat"
begin

section \<open>Compile-time register machines (ctrm.hpp)\<close>

text \<open>
  A shallow embedding of \<^verbatim>\<open>ctrm::program::exec\<close>, \<^verbatim>\<open>ctrm::parser::parse\<close> and
  \<^verbatim>\<open>ctrm::impl::getMaxArgs\<close>.

  Conventions of the model:
  \<^item> \<^verbatim>\<open>std::size_t\<close> is a \<open>nat\<close> below \<open>2 ^ 64\<close>; the two places where the source does
    arithmetic on values read from the text (\<^verbatim>\<open>parseInt\<close>, \<^verbatim>\<open>getMaxArgs\<close>) wrap
    modulo \<open>2 ^ 64\<close>. Positions in the text (\<^verbatim>\<open>current\<close>) never exceed the length of the
    text by more than a token and are not wrapped.
  \<^item> the register type \<^verbatim>\<open>IntType\<close> is any unsigned fixed-width type: \<open>'a word\<close>.
  \<^item> \<^verbatim>\<open>error(...)\<close> is not a constant expression, so inside the \<^verbatim>\<open>consteval\<close>
    functions a call of it ends the evaluation: every call is a \<open>Inl\<close> result.
  \<^item> a read of \<^verbatim>\<open>std::string_view\<close> or \<^verbatim>\<open>std::array\<close> outside its bounds has no
    defined result; it is a \<open>Inl\<close> result too, with an error of its own.
\<close>

subsection \<open>Instructions and programs\<close>

datatype instrType = HALT | INCR | DECR

record instruction =
  type :: instrType
  currentRegister :: nat
  location1 :: nat
  location2 :: nat

definition size_t_max :: nat where
  "size_t_max = 18446744073709551615"

definition wrap :: "nat \<Rightarrow> nat" where
  "wrap n = n mod 18446744073709551616"

definition instruction_decr :: "nat \<Rightarrow> nat \<Rightarrow> nat \<Rightarrow> instruction" where
  "instruction_decr reg loc1 loc2 =
     \<lparr>type = DECR, currentRegister = reg, location1 = loc1, location2 = loc2\<rparr>"

definition instruction_incr :: "nat \<Rightarrow> nat \<Rightarrow> instruction" where
  "instruction_incr reg loc1 =
     \<lparr>type = INCR, currentRegister = reg, location1 = loc1, location2 = size_t_max\<rparr>"

definition instruction_halt :: instruction where
  "instruction_halt =
     \<lparr>type = HALT, currentRegister = 0, location1 = size_t_max, location2 = size_t_max\<rparr>"

record program =
  maxRegisters :: nat
  instructions :: "instruction list"

definition instrCount :: "program \<Rightarrow> nat" where
  "instrCount p = length (instructions p)"

datatype error =
    NoNumberSpecified
  | UnexpectedEndOfFile
  | ExpectedLineNumber
  | MissingTerminator
  | IncorrectLineNumber
  | ExpectedColon
  | ExpectedPlusOrMinus
  | ExpectedArrow
  | ExpectedComma
  | UnexpectedCharacters
  | InputOutOfRange
  | InstructionOutOfRange
  | RegisterOutOfRange
  | TooManyArguments

subsection \<open>The executor\<close>

record 'v exec_state =
  halt :: bool
  loc :: nat
  "values" :: "'v list"

text \<open>The three branches on the type of the current instruction (lines 114 to 134).\<close>

definition dispatch :: "instruction \<Rightarrow> 'a::len word exec_state \<Rightarrow> error + 'a word exec_state" where
  "dispatch current s =
     (if type current = HALT then Inr (s\<lparr>halt := True\<rparr>)
      else if type current = INCR then
        (if currentRegister current < length (values s)
         then Inr (s\<lparr>values := (values s)[currentRegister current :=
                       values s ! currentRegister current + 1],
                    loc := location1 current\<rparr>)
         else Inl RegisterOutOfRange)
      else if type current = DECR then
        (if currentRegister current < length (values s)
         then (if values s ! currentRegister current > 0
               then Inr (s\<lparr>values := (values s)[currentRegister current :=
                             values s ! currentRegister current - 1],
                          loc := location1 current\<rparr>)
               else Inr (s\<lparr>loc := location2 current\<rparr>))
         else Inl RegisterOutOfRange)
      else Inr s)"

text \<open>One pass through the body of the \<^verbatim>\<open>while\<close> loop (lines 112 to 139).\<close>

definition exec_body :: "program \<Rightarrow> 'a::len word exec_state \<Rightarrow> error + 'a word exec_state" where
  "exec_body p s =
     (if loc s < instrCount p
      then (case dispatch (instructions p ! loc s) s of
              Inl e \<Rightarrow> Inl e
            | Inr s' \<Rightarrow> Inr (if loc s' > instrCount p then s'\<lparr>halt := True\<rparr> else s'))
      else Inl InstructionOutOfRange)"

text \<open>The loop has no bound: \<open>None\<close> is the run that never leaves it.\<close>

partial_function (option) exec_loop ::
  "program \<Rightarrow> 'a::len word exec_state \<Rightarrow> (error + 'a word exec_state) option" where
  "exec_loop p s =
     (if \<not> halt s
      then (case exec_body p s of
              Inl e \<Rightarrow> Some (Inl e)
            | Inr s' \<Rightarrow> exec_loop p s')
      else Some (Inr s))"

definition initial_state :: "program \<Rightarrow> 'a::len word list \<Rightarrow> 'a word exec_state" where
  "initial_state p args =
     \<lparr>halt = False, loc = 0,
      values = args @ replicate (maxRegisters p - length args) 0\<rparr>"

definition exec :: "program \<Rightarrow> 'a::len word list \<Rightarrow> (error + 'a word) option" where
  "exec p args =
     (if length args \<le> maxRegisters p
      then (case exec_loop p (initial_state p args) of
              None \<Rightarrow> None
            | Some (Inl e) \<Rightarrow> Some (Inl e)
            | Some (Inr s) \<Rightarrow>
                (if 0 < length (values s) then Some (Inr (values s ! 0))
                 else Some (Inl RegisterOutOfRange)))
      else Some (Inl TooManyArguments))"

subsection \<open>The parser\<close>

text \<open>
  The parser holds the text \<^verbatim>\<open>input\<close> and its length (the field called end in the
  source, \<open>length input\<close> here). Every helper takes the position \<^verbatim>\<open>current\<close> by
  reference: the model returns the new position with the result.
\<close>

definition newline :: char where
  "newline = CHR 0x0A"

definition tab :: char where
  "tab = CHR 0x09"

definition nul :: char where
  "nul = CHR 0x00"

definition at :: "string \<Rightarrow> nat \<Rightarrow> error + char" where
  "at input k = (if k < length input then Inr (input ! k) else Inl InputOutOfRange)"

definition eof :: "string \<Rightarrow> nat \<Rightarrow> bool" where
  "eof input current = (current \<ge> length input)"

definition isChar :: "string \<Rightarrow> nat \<Rightarrow> char list \<Rightarrow> error + bool" where
  "isChar input current cs =
     (case at input current of Inl e \<Rightarrow> Inl e | Inr c \<Rightarrow> Inr (c \<in> set cs))"

definition matchChar :: "string \<Rightarrow> nat \<Rightarrow> char list \<Rightarrow> error + (bool \<times> nat)" where
  "matchChar input current cs =
     (case isChar input current cs of
        Inl e \<Rightarrow> Inl e
      | Inr b \<Rightarrow> Inr (if b then (True, Suc current) else (False, current)))"

text \<open>
  The loop of \<^verbatim>\<open>matchStr\<close> visits every character of \<^verbatim>\<open>str\<close>, also after a
  mismatch; \<open>pos\<close> is \<^verbatim>\<open>current + i\<close>.
\<close>

fun matchStr_loop :: "string \<Rightarrow> nat \<Rightarrow> string \<Rightarrow> bool \<Rightarrow> error + bool" where
  "matchStr_loop input pos [] success = Inr success"
| "matchStr_loop input pos (c # cs) success =
     (if pos = length input then matchStr_loop input (Suc pos) cs False
      else (case at input pos of
              Inl e \<Rightarrow> Inl e
            | Inr d \<Rightarrow> matchStr_loop input (Suc pos) cs (if d \<noteq> c then False else success)))"

definition matchStr :: "string \<Rightarrow> nat \<Rightarrow> string \<Rightarrow> error + (bool \<times> nat)" where
  "matchStr input current str =
     (case matchStr_loop input current str True of
        Inl e \<Rightarrow> Inl e
      | Inr success \<Rightarrow> Inr (if success then (True, current + length str) else (False, current)))"

definition digits :: "char list" where
  "digits = ''0123456789''"

definition digit_value :: "char \<Rightarrow> nat" where
  "digit_value c = of_char c - of_char CHR ''0''"

function parseInt_loop :: "string \<Rightarrow> nat \<Rightarrow> nat \<Rightarrow> bool \<Rightarrow> error + (nat \<times> nat)" where
  "parseInt_loop input current result noIntParsed =
     (if eof input current
      then (if noIntParsed then Inl NoNumberSpecified else Inr (result, current))
      else (case isChar input current digits of
              Inl e \<Rightarrow> Inl e
            | Inr b \<Rightarrow>
                (if b
                 then parseInt_loop input (Suc current)
                        (wrap (wrap (result * 10) + digit_value (input ! current))) False
                 else (if noIntParsed then Inl NoNumberSpecified else Inr (result, current)))))"
  by pat_completeness auto
termination
  by (relation "measure (\<lambda>(input, current, result, noIntParsed). length input - current)")
     (auto simp: eof_def)

definition parseInt :: "string \<Rightarrow> nat \<Rightarrow> error + (nat \<times> nat)" where
  "parseInt input current = parseInt_loop input current 0 True"

definition parseLineNumber :: "string \<Rightarrow> nat \<Rightarrow> error + (nat \<times> nat)" where
  "parseLineNumber input current =
     (if eof input current then Inl UnexpectedEndOfFile
      else (case matchChar input current ''L'' of
              Inl e \<Rightarrow> Inl e
            | Inr (b, c) \<Rightarrow> if \<not> b then Inl ExpectedLineNumber else parseInt input c))"

text \<open>
  The two skipping loops call \<^verbatim>\<open>matchChar\<close> only when \<^verbatim>\<open>eof\<close> is false, so the read
  is in range and they cannot fail.
\<close>

function skipLinesAndSpaces :: "string \<Rightarrow> nat \<Rightarrow> nat" where
  "skipLinesAndSpaces input current =
     (if \<not> eof input current \<and> input ! current \<in> set [newline, tab, CHR '' '']
      then skipLinesAndSpaces input (Suc current) else current)"
  by pat_completeness auto
termination
  by (relation "measure (\<lambda>(input, current). length input - current)") (auto simp: eof_def)

function skipSpaces :: "string \<Rightarrow> nat \<Rightarrow> nat" where
  "skipSpaces input current =
     (if \<not> eof input current \<and> input ! current \<in> set [tab, CHR '' '']
      then skipSpaces input (Suc current) else current)"
  by pat_completeness auto
termination
  by (relation "measure (\<lambda>(input, current). length input - current)") (auto simp: eof_def)

definition terminators :: "char list" where
  "terminators = [CHR '';'', newline, nul]"

definition parseEOL :: "string \<Rightarrow> nat \<Rightarrow> error + nat" where
  "parseEOL input current =
     (let c = skipSpaces input current in
      if \<not> eof input c
      then (case matchChar input c terminators of
              Inl e \<Rightarrow> Inl e
            | Inr (b, c') \<Rightarrow> if \<not> b then Inl MissingTerminator else Inr c')
      else Inr c)"

text \<open>The optional line number of a slot (lines 284 to 295).\<close>

definition parse_prefix :: "string \<Rightarrow> nat \<Rightarrow> nat \<Rightarrow> error + nat" where
  "parse_prefix input i current =
     (case isChar input current ''L'' of
        Inl e \<Rightarrow> Inl e
      | Inr b \<Rightarrow>
          (if b
           then (case parseLineNumber input current of
                   Inl e \<Rightarrow> Inl e
                 | Inr (n, c1) \<Rightarrow>
                     (if n \<noteq> i then Inl IncorrectLineNumber
                      else (let c2 = skipSpaces input c1 in
                            if eof input c2 then Inl ExpectedColon
                            else (case matchChar input c2 '':'' of
                                    Inl e \<Rightarrow> Inl e
                                  | Inr (b', c3) \<Rightarrow>
                                      if \<not> b' then Inl ExpectedColon
                                      else Inr (skipSpaces input c3)))))
           else Inr current))"

text \<open>The \<^verbatim>\<open>switch\<close> on the sign and the increment of the position (lines 304 to 315).\<close>

definition parse_sign :: "string \<Rightarrow> nat \<Rightarrow> error + (bool \<times> nat)" where
  "parse_sign input current =
     (case at input current of
        Inl e \<Rightarrow> Inl e
      | Inr sign \<Rightarrow>
          (if sign = CHR ''+'' then Inr (True, Suc current)
           else if sign = CHR ''-'' then Inr (False, Suc current)
           else Inl ExpectedPlusOrMinus))"

text \<open>The rest of an increment statement (lines 327 and 328).\<close>

definition parse_incr_tail :: "string \<Rightarrow> nat \<Rightarrow> nat \<Rightarrow> nat \<Rightarrow> error + (instruction \<times> nat)" where
  "parse_incr_tail input registerLocation loc1 current =
     (case parseEOL input current of
        Inl e \<Rightarrow> Inl e
      | Inr c \<Rightarrow> Inr (instruction_incr registerLocation loc1, c))"

text \<open>The rest of a decrement statement (lines 332 to 340).\<close>

definition parse_decr_tail :: "string \<Rightarrow> nat \<Rightarrow> nat \<Rightarrow> nat \<Rightarrow> error + (instruction \<times> nat)" where
  "parse_decr_tail input registerLocation loc1 current =
     (case matchChar input (skipSpaces input current) '','' of
        Inl e \<Rightarrow> Inl e
      | Inr (comma, c1) \<Rightarrow>
          (if \<not> comma then Inl ExpectedComma
           else (case parseLineNumber input (skipSpaces input c1) of
                   Inl e \<Rightarrow> Inl e
                 | Inr (loc2, c2) \<Rightarrow>
                     (case parseEOL input c2 of
                        Inl e \<Rightarrow> Inl e
                      | Inr c3 \<Rightarrow> Inr (instruction_decr registerLocation loc1 loc2, c3)))))"

text \<open>The statement after \<^verbatim>\<open>R\<close> has been matched (lines 299 to 341).\<close>

definition parse_register_statement :: "string \<Rightarrow> nat \<Rightarrow> error + (instruction \<times> nat)" where
  "parse_register_statement input current =
     (case parseInt input current of
        Inl e \<Rightarrow> Inl e
      | Inr (registerLocation, c1) \<Rightarrow>
          (case parse_sign input (skipSpaces input c1) of
             Inl e \<Rightarrow> Inl e
           | Inr (incrementInstruction, c2) \<Rightarrow>
               (case matchStr input (skipSpaces input c2) ''->'' of
                  Inl e \<Rightarrow> Inl e
                | Inr (arrow, c3) \<Rightarrow>
                    (if \<not> arrow then Inl ExpectedArrow
                     else (case parseLineNumber input (skipSpaces input c3) of
                             Inl e \<Rightarrow> Inl e
                           | Inr (loc1, c4) \<Rightarrow>
                               (if incrementInstruction
                                then parse_incr_tail input registerLocation loc1 c4
                                else parse_decr_tail input registerLocation loc1 c4))))))"

text \<open>The \<^verbatim>\<open>if\<close> chain on the first character of the statement (lines 297 to 355).\<close>

definition parse_statement :: "string \<Rightarrow> nat \<Rightarrow> error + (instruction \<times> nat)" where
  "parse_statement input current =
     (case (if \<not> eof input current then matchChar input current ''R''
            else Inr (False, current)) of
        Inl e \<Rightarrow> Inl e
      | Inr (isReg, c1) \<Rightarrow>
          (if isReg then parse_register_statement input c1
           else (case matchStr input c1 ''HALT'' of
                   Inl e \<Rightarrow> Inl e
                 | Inr (isHalt, c2) \<Rightarrow>
                     (if isHalt
                      then (case parseEOL input c2 of
                              Inl e \<Rightarrow> Inl e
                            | Inr c3 \<Rightarrow> Inr (instruction_halt, c3))
                      else (case matchChar input c2 terminators of
                              Inl e \<Rightarrow> Inl e
                            | Inr (isEnd, c3) \<Rightarrow>
                                if isEnd then Inr (instruction_halt, c3)
                                else Inl UnexpectedCharacters)))))"

text \<open>
  The body of the \<^verbatim>\<open>for\<close> loop: the instruction stored in slot \<open>i\<close> and the position
  after the closing \<^verbatim>\<open>skipLinesAndSpaces\<close>.
\<close>

definition parse_slot :: "string \<Rightarrow> nat \<Rightarrow> nat \<Rightarrow> error + (instruction \<times> nat)" where
  "parse_slot input i current =
     (case parse_prefix input i current of
        Inl e \<Rightarrow> Inl e
      | Inr c1 \<Rightarrow>
          (case parse_statement input c1 of
             Inl e \<Rightarrow> Inl e
           | Inr (ins, c2) \<Rightarrow> Inr (ins, skipLinesAndSpaces input c2)))"

text \<open>
  The \<^verbatim>\<open>for\<close> loop, returning its variables when it ends: the slot index \<open>i\<close>, the
  position and the table.
\<close>

function parse_loop ::
  "string \<Rightarrow> nat \<Rightarrow> nat \<Rightarrow> nat \<Rightarrow> instruction list \<Rightarrow> error + (nat \<times> nat \<times> instruction list)" where
  "parse_loop input n i current instr =
     (if i < n \<and> \<not> eof input current
      then (case parse_slot input i current of
              Inl e \<Rightarrow> Inl e
            | Inr (ins, c) \<Rightarrow> parse_loop input n (Suc i) c (instr[i := ins]))
      else Inr (i, current, instr))"
  by pat_completeness auto
termination
  by (relation "measure (\<lambda>(input, n, i, current, instr). n - i)") auto

text \<open>
  \<^verbatim>\<open>parse<maxRegisters>()\<close> of a \<^verbatim>\<open>parser<instrCount>\<close>: the table starts as
  \<^verbatim>\<open>instrCount\<close> default-constructed instructions.
\<close>

definition parse :: "nat \<Rightarrow> nat \<Rightarrow> string \<Rightarrow> error + program" where
  "parse maxRegs n input =
     (case parse_loop input n 0 (skipLinesAndSpaces input 0) (replicate n instruction_halt) of
        Inl e \<Rightarrow> Inl e
      | Inr (i, current, instr) \<Rightarrow> Inr \<lparr>maxRegisters = maxRegs, instructions = instr\<rparr>)"

subsection \<open>The programs of the examples\<close>

text \<open>The text of the example (the argument of \<^verbatim>\<open>ctrm::make<3, 5>\<close> in \<^verbatim>\<open>main\<close>).\<close>

definition example_text :: string where
  "example_text =
     ''L0 : R1- -> L1, L2'' @ [newline] @
     ''L1 : R0+ -> L0'' @ [newline] @
     ''L2 : R2- -> L3, L4'' @ [newline] @
     ''L3 : R0+ -> L2'' @ [newline] @
     ''L4 : HALT''"

definition example_program :: program where
  "example_program =
     \<lparr>maxRegisters = 3,
      instructions = [instruction_decr 1 1 2, instruction_incr 0 0, instruction_decr 2 3 4,
                      instruction_incr 0 2, instruction_halt]\<rparr>"

definition fall_off_program :: program where
  "fall_off_program = \<lparr>maxRegisters = 1, instructions = [instruction_decr 0 1 1]\<rparr>"

text \<open>
  The equations of the loops are used one pass at a time, by name, and are not rewrite rules.
\<close>

declare parseInt_loop.simps [simp del]
declare skipLinesAndSpaces.simps [simp del]
declare skipSpaces.simps [simp del]
declare parse_loop.simps [simp del]

subsection \<open>The slots the parser reaches\<close>

text \<open>
  The states of the \<^verbatim>\<open>for\<close> loop of \<^verbatim>\<open>parse\<close>: \<open>slot_reached input n i current instr\<close>
  holds when the loop, run on \<open>input\<close> with \<open>n\<close> slots, comes to its test with slot index
  \<open>i\<close>, position \<open>current\<close> and table \<open>instr\<close>.
\<close>

inductive slot_reached :: "string \<Rightarrow> nat \<Rightarrow> nat \<Rightarrow> nat \<Rightarrow> instruction list \<Rightarrow> bool"
  for input :: string and n :: nat where
  first: "slot_reached input n 0 (skipLinesAndSpaces input 0) (replicate n instruction_halt)"
| pass: "slot_reached input n i current instr \<Longrightarrow> i < n \<Longrightarrow> \<not> eof input current \<Longrightarrow>
         parse_slot input i current = Inr (ins, c) \<Longrightarrow>
         slot_reached input n (Suc i) c (instr[i := ins])"

subsection \<open>The number a digit string denotes\<close>

definition is_digit :: "char \<Rightarrow> bool" where
  "is_digit c = (c \<in> set digits)"

text \<open>The decimal value of a string of digits, as a natural number without bound.\<close>

definition decimal :: "string \<Rightarrow> nat" where
  "decimal ds = foldl (\<lambda>v c. v * 10 + digit_value c) 0 ds"

subsection \<open>The scan for the capacities\<close>

text \<open>
  \<^verbatim>\<open>getMaxArgs\<close> (lines 378 to 444): one pass over the characters with four variables.
\<close>

datatype mode = SKIP | READ_LOC | READ_REG

record scan =
  readInt :: mode
  result :: nat
  maxReg :: nat
  maxLoc :: nat

text \<open>The two nested tests that raise a maximum (lines 421 to 427 and 435 to 441).\<close>

definition raise_maxima :: "scan \<Rightarrow> scan" where
  "raise_maxima st =
     (let st1 = (if readInt st = READ_LOC
                 then (if result st > maxLoc st then st\<lparr>maxLoc := result st\<rparr> else st)
                 else st)
      in (if readInt st1 = READ_REG
          then (if result st1 > maxReg st1 then st1\<lparr>maxReg := result st1\<rparr> else st1)
          else st1))"

text \<open>The \<^verbatim>\<open>switch\<close> on one character.\<close>

definition scan_char :: "char \<Rightarrow> scan \<Rightarrow> scan" where
  "scan_char c st =
     (if c = CHR ''L'' then st\<lparr>readInt := READ_LOC\<rparr>
      else if c = CHR ''R'' then st\<lparr>readInt := READ_REG\<rparr>
      else if c \<in> set digits
      then (if readInt st \<noteq> SKIP
            then st\<lparr>result := wrap (wrap (result st * 10) + digit_value c)\<rparr>
            else st)
      else (if result st \<noteq> 0
            then (raise_maxima st)\<lparr>result := 0, readInt := SKIP\<rparr>
            else st))"

primrec getMaxArgs_loop :: "string \<Rightarrow> scan \<Rightarrow> scan" where
  "getMaxArgs_loop [] st = st"
| "getMaxArgs_loop (c # cs) st = getMaxArgs_loop cs (scan_char c st)"

definition getMaxArgs :: "string \<Rightarrow> nat \<times> nat" where
  "getMaxArgs chars =
     (let st = raise_maxima
                 (getMaxArgs_loop chars \<lparr>readInt = SKIP, result = 0, maxReg = 0, maxLoc = 0\<rparr>)
      in (wrap (maxReg st + 1), wrap (maxLoc st + 1)))"

subsection \<open>The capacities as the specification words them\<close>

text \<open>
  The greatest index that appears after a marker \<open>m\<close> in a text: at every occurrence of \<open>m\<close>,
  the number denoted by the digits that follow it; 0 when there is none.
\<close>

fun max_index :: "char \<Rightarrow> string \<Rightarrow> nat" where
  "max_index m [] = 0"
| "max_index m (c # cs) =
     (if c = m then max (decimal (takeWhile is_digit cs)) (max_index m cs) else max_index m cs)"

definition spec_capacities :: "string \<Rightarrow> nat \<times> nat" where
  "spec_capacities text = (1 + max_index CHR ''R'' text, 1 + max_index CHR ''L'' text)"

text \<open>The same maximum over the indices as a \<^verbatim>\<open>std::size_t\<close> holds them.\<close>

fun max_index_wrapped :: "char \<Rightarrow> string \<Rightarrow> nat" where
  "max_index_wrapped m [] = 0"
| "max_index_wrapped m (c # cs) =
     (if c = m then max (wrap (decimal (takeWhile is_digit cs))) (max_index_wrapped m cs)
      else max_index_wrapped m cs)"

text \<open>
  The lexical shape of a well-formed text that the scan relies on: every digit follows a
  marker \<^verbatim>\<open>R\<close> or \<^verbatim>\<open>L\<close> or another digit, and no marker follows a digit. The first
  argument is the class of the character before.
\<close>

datatype char_class = Delimiter | Marker | Digit

fun lex_ok :: "char_class \<Rightarrow> string \<Rightarrow> bool" where
  "lex_ok k [] = True"
| "lex_ok k (c # cs) =
     (if c = CHR ''L'' \<or> c = CHR ''R'' then k \<noteq> Digit \<and> lex_ok Marker cs
      else if is_digit c then k \<noteq> Delimiter \<and> lex_ok Digit cs
      else lex_ok Delimiter cs)"

subsection \<open>The grammar of the specification\<close>

text \<open>
  The grammar of section 4.1 of the specification, as predicates on strings. Two readings
  are made explicit: the white space between lines (newlines, tabs and spaces, which the
  specification calls insignificant) is a \<open>gap\<close>, and the NUL character counts as a
  terminator beside \<^verbatim>\<open>;\<close> and newline, as in the grammar of the README.
\<close>

definition blanks :: "string \<Rightarrow> bool" where
  "blanks s = list_all (\<lambda>c. c = CHR '' '' \<or> c = tab) s"

definition gap :: "string \<Rightarrow> bool" where
  "gap s = list_all (\<lambda>c. c = newline \<or> c = tab \<or> c = CHR '' '') s"

definition number :: "string \<Rightarrow> bool" where
  "number s = (s \<noteq> [] \<and> list_all is_digit s)"

inductive line_prefix :: "string \<Rightarrow> bool" where
  "number n \<Longrightarrow> blanks s1 \<Longrightarrow> blanks s2 \<Longrightarrow> line_prefix (CHR ''L'' # n @ s1 @ '':'' @ s2)"

inductive statement :: "string \<Rightarrow> bool" where
  increment:
    "number r \<Longrightarrow> blanks s1 \<Longrightarrow> blanks s2 \<Longrightarrow> blanks s3 \<Longrightarrow> number l \<Longrightarrow>
     statement (CHR ''R'' # r @ s1 @ ''+'' @ s2 @ ''->'' @ s3 @ CHR ''L'' # l)"
| decrement:
    "number r \<Longrightarrow> blanks s1 \<Longrightarrow> blanks s2 \<Longrightarrow> blanks s3 \<Longrightarrow> number l1 \<Longrightarrow>
     blanks s4 \<Longrightarrow> blanks s5 \<Longrightarrow> number l2 \<Longrightarrow>
     statement (CHR ''R'' # r @ s1 @ ''-'' @ s2 @ ''->'' @ s3 @ CHR ''L'' # l1 @
                s4 @ '','' @ s5 @ CHR ''L'' # l2)"
| halt: "statement ''HALT''"
| empty: "statement []"

text \<open>
  The end of a line: a terminator character, or the end of the input. The flag tells which:
  it is true for a line that ends with the input.
\<close>

inductive line_end :: "bool \<Rightarrow> string \<Rightarrow> bool" where
  by_terminator: "blanks b \<Longrightarrow> t \<in> set terminators \<Longrightarrow> line_end False (b @ [t])"
| by_end_of_input: "blanks b \<Longrightarrow> line_end True b"

inductive line :: "bool \<Rightarrow> string \<Rightarrow> bool" where
  plain: "statement st \<Longrightarrow> line_end e le \<Longrightarrow> line e (st @ le)"
| numbered: "line_prefix p \<Longrightarrow> statement st \<Longrightarrow> line_end e le \<Longrightarrow> line e (p @ st @ le)"

text \<open>
  \<open>lines k e s\<close>: the string \<open>s\<close> is \<open>k\<close> lines, with gaps before, between and after them;
  \<open>e\<close> is true when the last line ends with the input and not with a terminator.
\<close>

inductive lines :: "nat \<Rightarrow> bool \<Rightarrow> string \<Rightarrow> bool" where
  none: "gap g \<Longrightarrow> lines 0 False g"
| more: "lines k False s \<Longrightarrow> line False l \<Longrightarrow> gap g \<Longrightarrow> lines (Suc k) False (s @ l @ g)"
| last: "lines k False s \<Longrightarrow> line True l \<Longrightarrow> lines (Suc k) True (s @ l)"

definition program_text :: "string \<Rightarrow> bool" where
  "program_text s = (\<exists>k e. lines k e s)"

text \<open>The characters of the input from position \<open>a\<close> up to position \<open>b\<close>.\<close>

definition segment :: "string \<Rightarrow> nat \<Rightarrow> nat \<Rightarrow> string" where
  "segment input a b = take (b - a) (drop a input)"

text \<open>
  A text reads as lines at capacity \<open>n\<close> when it is at most \<open>n\<close> lines of the grammar, or
  begins with \<open>n\<close> lines of the grammar, each ended by a terminator.
\<close>

definition reads_as_lines :: "nat \<Rightarrow> string \<Rightarrow> bool" where
  "reads_as_lines n input =
     (\<exists>k c e. k \<le> n \<and> c \<le> length input \<and> lines k e (take c input) \<and>
        (e \<longrightarrow> c = length input) \<and> (k < n \<longrightarrow> c = length input))"

text \<open>Two texts have the same first \<open>K\<close> characters.\<close>

definition agree :: "nat \<Rightarrow> string \<Rightarrow> string \<Rightarrow> bool" where
  "agree K input input' = (K \<le> length input \<and> K \<le> length input' \<and> take K input' = take K input)"

subsection \<open>The entry point\<close>

text \<open>\<^verbatim>\<open>ctrm::make<maxRegisters, instrCount>(input)\<close>: a parser on the text, then \<^verbatim>\<open>parse\<close>.\<close>

definition make :: "nat \<Rightarrow> nat \<Rightarrow> string \<Rightarrow> error + program" where
  "make maxRegs n input = parse maxRegs n input"

subsection \<open>Texts used as examples\<close>



definition out_of_order_text :: string where
  "out_of_order_text = ''L0: HALT'' @ [newline] @ ''L2: HALT''"

definition blank_line_text :: string where
  "blank_line_text = ''R0+ -> L1'' @ [newline, newline] @ ''R0+ -> L0''"

definition empty_statement_text :: string where
  "empty_statement_text = ''R0+ -> L1;;R0+ -> L0''"

section \<open>The executor: lemmas\<close>

lemmas exec_defs = exec_body_def dispatch_def instrCount_def
  instruction_decr_def instruction_incr_def instruction_halt_def

lemma exec_loop_halted: "halt s \<Longrightarrow> exec_loop p s = Some (Inr s)"
  by (subst exec_loop.simps) simp

lemma exec_loop_step:
  "\<not> halt s \<Longrightarrow> exec_body p s = Inr s' \<Longrightarrow> exec_loop p s = exec_loop p s'"
  by (subst exec_loop.simps) simp

lemma exec_loop_error:
  "\<not> halt s \<Longrightarrow> exec_body p s = Inl e \<Longrightarrow> exec_loop p s = Some (Inl e)"
  by (subst exec_loop.simps) simp

text \<open>
  A jump beyond \<^verbatim>\<open>instrCount\<close> sets \<^verbatim>\<open>halt\<close> in the same pass; a jump to
  \<^verbatim>\<open>instrCount\<close> itself does not, and the next pass indexes the table there.
\<close>

lemma exec_body_sets_halt_beyond:
  "exec_body p s = Inr s' \<Longrightarrow> instrCount p < loc s' \<Longrightarrow> halt s'"
  by (auto simp: exec_body_def split: if_splits sum.splits)

lemma exec_loop_at_instrCount:
  "\<not> halt s \<Longrightarrow> loc s = instrCount p \<Longrightarrow> exec_loop p s = Some (Inl InstructionOutOfRange)"
  by (rule exec_loop_error) (simp_all add: exec_body_def)

lemma unat_pred_of_Suc:
  fixes b :: "'a::len word"
  assumes "Suc n = unat b"
  shows "0 < b" and "n = unat (b - 1)"
proof -
  from assms have "b \<noteq> 0" by auto
  with assms show "0 < b" and "n = unat (b - 1)"
    by (simp_all add: word_greater_zero_iff unat_minus_one)
qed

text \<open>The first loop of the example moves register 1 into register 0.\<close>

lemma example_first_loop:
  "exec_loop example_program \<lparr>halt = False, loc = 0, values = [a, b, c :: 'a::len word]\<rparr> =
   exec_loop example_program \<lparr>halt = False, loc = 2, values = [a + b, 0, c]\<rparr>"
proof (induction "unat b" arbitrary: a b)
  case 0
  then have "b = 0" by (simp add: unat_eq_0)
  then show ?case
    by (subst exec_loop.simps) (simp add: example_program_def exec_defs)
next
  case (Suc n)
  note pos = unat_pred_of_Suc(1) [OF Suc.hyps(2)] and less = unat_pred_of_Suc(2) [OF Suc.hyps(2)]
  have "exec_loop example_program \<lparr>halt = False, loc = 0, values = [a, b, c]\<rparr> =
        exec_loop example_program \<lparr>halt = False, loc = 1, values = [a, b - 1, c]\<rparr>"
    using pos by (subst exec_loop.simps) (simp add: example_program_def exec_defs)
  also have "\<dots> = exec_loop example_program \<lparr>halt = False, loc = 0, values = [a + 1, b - 1, c]\<rparr>"
    by (subst exec_loop.simps) (simp add: example_program_def exec_defs)
  also have "\<dots> = exec_loop example_program
                      \<lparr>halt = False, loc = 2, values = [a + 1 + (b - 1), 0, c]\<rparr>"
    by (rule Suc.hyps(1) [OF less])
  finally show ?case by simp
qed

text \<open>The second loop moves register 2 into register 0 and reaches \<^verbatim>\<open>HALT\<close>.\<close>

lemma example_second_loop:
  "exec_loop example_program \<lparr>halt = False, loc = 2, values = [a, 0, c :: 'a::len word]\<rparr> =
   Some (Inr \<lparr>halt = True, loc = 4, values = [a + c, 0, 0]\<rparr>)"
proof (induction "unat c" arbitrary: a c)
  case 0
  then have c: "c = 0" by (simp add: unat_eq_0)
  have "exec_loop example_program \<lparr>halt = False, loc = 2, values = [a, 0, c]\<rparr> =
        exec_loop example_program \<lparr>halt = False, loc = 4, values = [a, 0, 0]\<rparr>"
    using c by (subst exec_loop.simps) (simp add: example_program_def exec_defs)
  also have "\<dots> = exec_loop example_program \<lparr>halt = True, loc = 4, values = [a, 0, 0]\<rparr>"
    by (subst exec_loop.simps) (simp add: example_program_def exec_defs)
  also have "\<dots> = Some (Inr \<lparr>halt = True, loc = 4, values = [a, 0, 0]\<rparr>)"
    by (simp add: exec_loop_halted)
  finally show ?case using c by simp
next
  case (Suc n)
  note pos = unat_pred_of_Suc(1) [OF Suc.hyps(2)] and less = unat_pred_of_Suc(2) [OF Suc.hyps(2)]
  have "exec_loop example_program \<lparr>halt = False, loc = 2, values = [a, 0, c]\<rparr> =
        exec_loop example_program \<lparr>halt = False, loc = 3, values = [a, 0, c - 1]\<rparr>"
    using pos by (subst exec_loop.simps) (simp add: example_program_def exec_defs)
  also have "\<dots> = exec_loop example_program \<lparr>halt = False, loc = 2, values = [a + 1, 0, c - 1]\<rparr>"
    by (subst exec_loop.simps) (simp add: example_program_def exec_defs)
  also have "\<dots> = Some (Inr \<lparr>halt = True, loc = 4, values = [a + 1 + (c - 1), 0, 0]\<rparr>)"
    by (rule Suc.hyps(1) [OF less])
  finally show ?case by simp
qed

lemma example_exec:
  "exec example_program [0, r1, r2 :: 'a::len word] = Some (Inr (r1 + r2))"
proof -
  have "initial_state example_program [0, r1, r2] =
        \<lparr>halt = False, loc = 0, values = [0, r1, r2]\<rparr>"
    by (simp add: initial_state_def example_program_def)
  then show ?thesis
    by (simp add: exec_def example_first_loop example_second_loop)
       (simp add: example_program_def)
qed

lemma make_example: "make 3 5 example_text = Inr example_program"
  by code_simp

lemma make_fall_off: "make 1 1 ''L0: R0- -> L1, L1'' = Inr fall_off_program"
  by code_simp

lemma exec_fall_off:
  "exec fall_off_program [0 :: 'a::len word] = Some (Inl InstructionOutOfRange)"
proof -
  let ?s = "\<lparr>halt = False, loc = 0, values = [0 :: 'a word]\<rparr>"
  have init: "initial_state fall_off_program [0 :: 'a word] = ?s"
    by (simp add: initial_state_def fall_off_program_def)
  have "exec_loop fall_off_program ?s = exec_loop fall_off_program (?s\<lparr>loc := 1\<rparr>)"
    by (rule exec_loop_step) (simp_all add: fall_off_program_def exec_defs)
  also have "\<dots> = Some (Inl InstructionOutOfRange)"
    by (rule exec_loop_at_instrCount) (simp_all add: fall_off_program_def instrCount_def)
  finally show ?thesis
    by (simp add: exec_def init) (simp add: fall_off_program_def)
qed

section \<open>The claims about the executor\<close>

text \<open>
  C1. The claim: whenever the program counter leaves \<open>[0, instructionCount)\<close>, also when it
  becomes exactly \<open>instructionCount\<close>, \<^verbatim>\<open>exec\<close> ends normally with the value of register 0
  and reads no slot outside the table; the program \<^verbatim>\<open>L0: R0- -> L1, L1\<close> with register 0
  at 0 halts at once.

  The source tests \<^verbatim>\<open>loc > instrCount\<close>, so a counter equal to \<^verbatim>\<open>instrCount\<close> stays in
  the loop. The text of the claim parses, at capacity 1, to a table of one instruction; with
  register 0 at 0 the decrement jumps to line 1, the test \<open>1 > 1\<close> fails, and the next pass
  reads \<^verbatim>\<open>instructions[1]\<close>, outside the table.
\<close>

theorem exec_fall_off_reads_outside_table:
  "make 1 1 ''L0: R0- -> L1, L1'' = Inr fall_off_program \<and>
   exec fall_off_program [0 :: 'a::len word] = Some (Inl InstructionOutOfRange)"
  using make_fall_off exec_fall_off by simp

text \<open>
  C2. The example program of five instructions, run with register 0 at 0, ends and returns
  the sum of the initial values of registers 1 and 2 (the sum of the register type, which
  wraps as increments do); with \<open>(0, 3, 5)\<close> it returns 8. The program is the one
  \<^verbatim>\<open>make<3, 5>\<close> parses from the text of the example.
\<close>

theorem example_program_adds:
  "make 3 5 example_text = Inr example_program \<and>
   exec example_program [0, r1, r2 :: 'a::len word] = Some (Inr (r1 + r2)) \<and>
   exec example_program [0, 3, 5 :: 'a::len word] = Some (Inr 8)"
proof -
  have "exec example_program [0, 3, 5 :: 'a word] = Some (Inr (3 + 5))"
    by (rule example_exec)
  then show ?thesis
    using make_example example_exec [of r1 r2] by simp
qed

text \<open>
  C3. A pass of the loop at a \<^verbatim>\<open>DECR\<close> instruction whose register \<open>r\<close> exists: if the
  register is above zero, it loses one (as a number: no wrap-around) and control goes to
  \<^verbatim>\<open>location1\<close>; if it is zero, the whole register file stays as it is and control goes
  to \<^verbatim>\<open>location2\<close>. In both cases no register grows, so none has wrapped below zero.
\<close>

theorem decrement_step:
  fixes s :: "'a::len word exec_state"
  assumes "loc s < instrCount p"
    and "type (instructions p ! loc s) = DECR"
    and "currentRegister (instructions p ! loc s) = r"
    and "r < length (values s)"
  shows "\<exists>s'. exec_body p s = Inr s' \<and>
           (if 0 < values s ! r
            then values s' = (values s)[r := values s ! r - 1] \<and>
                 Suc (unat (values s' ! r)) = unat (values s ! r) \<and>
                 loc s' = location1 (instructions p ! loc s)
            else values s' = values s \<and> loc s' = location2 (instructions p ! loc s)) \<and>
           list_all2 (\<lambda>v' v. unat v' \<le> unat v) (values s') (values s)"
proof (cases "0 < values s ! r")
  case True
  then have "values s ! r \<noteq> 0" by auto
  then have dec: "unat (values s ! r - 1) = unat (values s ! r) - 1"
    by (rule unat_minus_one)
  from True have "0 < unat (values s ! r)"
    by (simp add: word_less_nat_alt)
  with dec have suc: "Suc (unat (values s ! r - 1)) = unat (values s ! r)" by simp
  have "list_all2 (\<lambda>v' v. unat v' \<le> unat v) ((values s)[r := values s ! r - 1]) (values s)"
    using dec assms(4) by (auto simp: list_all2_conv_all_nth nth_list_update)
  with assms True suc show ?thesis
    by (simp add: exec_body_def dispatch_def)
next
  case False
  have "list_all2 (\<lambda>v' v. unat v' \<le> unat v) (values s) (values s)"
    by (simp add: list_all2_conv_all_nth)
  with assms False show ?thesis
    by (simp add: exec_body_def dispatch_def)
qed

theorem decrement_step_witness:
  "(\<exists>s'. exec_body example_program \<lparr>halt = False, loc = 0, values = [0, 3, 5 :: 8 word]\<rparr> = Inr s' \<and>
         values s' = [0, 2, 5] \<and> loc s' = 1) \<and>
   (\<exists>s'. exec_body example_program \<lparr>halt = False, loc = 0, values = [0, 0, 5 :: 8 word]\<rparr> = Inr s' \<and>
         values s' = [0, 0, 5] \<and> loc s' = 2)"
  using decrement_step [of "\<lparr>halt = False, loc = 0, values = [0, 3, 5 :: 8 word]\<rparr>"
                           example_program 1]
        decrement_step [of "\<lparr>halt = False, loc = 0, values = [0, 0, 5 :: 8 word]\<rparr>"
                           example_program 1]
  by (simp add: example_program_def instrCount_def instruction_decr_def) blast

text \<open>
  C10. A pass of the loop changes at most the register its instruction names: the register
  file keeps its length and every other register its value; a \<^verbatim>\<open>HALT\<close> pass and a
  \<^verbatim>\<open>DECR\<close> pass on a register at zero change no register. The table of instructions is
  the constant member of the program: a pass takes it as the argument \<open>p\<close> and returns a
  state only, and \<^verbatim>\<open>exec_loop\<close> hands the same \<open>p\<close> to every pass.
\<close>

theorem exec_body_frame:
  fixes s :: "'a::len word exec_state"
  assumes "exec_body p s = Inr s'"
  shows "length (values s') = length (values s) \<and>
         (\<forall>k. k \<noteq> currentRegister (instructions p ! loc s) \<longrightarrow> values s' ! k = values s ! k) \<and>
         (type (instructions p ! loc s) = HALT \<longrightarrow> values s' = values s) \<and>
         (type (instructions p ! loc s) = DECR \<and>
          values s ! currentRegister (instructions p ! loc s) = 0 \<longrightarrow> values s' = values s)"
  using assms
  by (auto simp: exec_body_def dispatch_def split: if_splits)

theorem exec_body_frame_witness:
  "exec_body example_program \<lparr>halt = False, loc = 1, values = [7, 3, 5 :: 8 word]\<rparr> =
     Inr \<lparr>halt = False, loc = 0, values = [8, 3, 5]\<rparr> \<and>
   length [8, 3, 5 :: 8 word] = length [7, 3, 5 :: 8 word] \<and>
   [8, 3, 5 :: 8 word] ! 1 = [7, 3, 5] ! 1 \<and> [8, 3, 5 :: 8 word] ! 2 = [7, 3, 5] ! 2"
proof -
  let ?s = "\<lparr>halt = False, loc = 1, values = [7, 3, 5 :: 8 word]\<rparr>"
  let ?s' = "\<lparr>halt = False, loc = 0, values = [8, 3, 5 :: 8 word]\<rparr>"
  have step: "exec_body example_program ?s = Inr ?s'"
    by (simp add: example_program_def exec_defs)
  from exec_body_frame [OF step] step show ?thesis
    by (simp add: example_program_def instruction_incr_def)
qed

section \<open>The parser: lemmas\<close>

subsection \<open>The loop over the slots\<close>

lemma parse_loop_result:
  "parse_loop input n i c instr = Inr (i', c', instr') \<Longrightarrow>
   i \<le> i' \<and> (i \<le> n \<longrightarrow> i' \<le> n) \<and> length instr' = length instr \<and>
   take i instr' = take i instr \<and> drop i' instr' = drop i' instr \<and>
   (i' < n \<longrightarrow> eof input c')"
proof (induction input n i c instr rule: parse_loop.induct)
  case (1 input n i current instr)
  show ?case
  proof (cases "i < n \<and> \<not> eof input current")
    case False
    with "1.prems" show ?thesis
      by (auto simp: parse_loop.simps [of input n i current instr])
  next
    case True
    with "1.prems" obtain ins c where slot: "parse_slot input i current = Inr (ins, c)"
      and rest: "parse_loop input n (Suc i) c (instr[i := ins]) = Inr (i', c', instr')"
      by (auto simp: parse_loop.simps [of input n i current instr] split: sum.splits)
    from "1.IH" [OF True slot refl rest] True
    have ih: "Suc i \<le> i'" "i' \<le> n" "length instr' = length instr"
      "take (Suc i) instr' = take (Suc i) (instr[i := ins])"
      "drop i' instr' = drop i' (instr[i := ins])" "i' < n \<longrightarrow> eof input c'"
      by auto
    from ih(4) have "take i (take (Suc i) instr') = take i (take (Suc i) (instr[i := ins]))"
      by simp
    then have "take i instr' = take i instr"
      by (simp add: min_def)
    moreover from ih(1,5) have "drop i' instr' = drop i' instr"
      by simp
    ultimately show ?thesis using ih by auto
  qed
qed


lemma slot_reached_length: "slot_reached input n i c instr \<Longrightarrow> length instr = n \<and> i \<le> n"
  by (induction rule: slot_reached.induct) auto

lemma slot_reached_parse_loop:
  "slot_reached input n i c instr \<Longrightarrow>
   parse_loop input n 0 (skipLinesAndSpaces input 0) (replicate n instruction_halt) =
   parse_loop input n i c instr"
proof (induction rule: slot_reached.induct)
  case first
  show ?case by simp
next
  case (pass i current instr ins c)
  then show ?case
    by (simp add: parse_loop.simps [of input n i current instr])
qed

lemma slot_error_aborts:
  assumes "slot_reached input n i c instr" and "i < n" and "\<not> eof input c"
    and "parse_slot input i c = Inl e"
  shows "parse r n input = Inl e"
  using assms
  by (simp add: parse_def slot_reached_parse_loop parse_loop.simps [of input n i c instr])

lemma slot_stored:
  assumes "slot_reached input n i c instr" and "i < n" and "\<not> eof input c"
    and "parse_slot input i c = Inr (ins, c')" and "parse r n input = Inr P"
  shows "instructions P ! i = ins"
proof -
  from assms(1) have len: "length instr = n" by (simp add: slot_reached_length)
  from assms obtain k ck instr' where
    loop: "parse_loop input n (Suc i) c' (instr[i := ins]) = Inr (k, ck, instr')"
    and P: "instructions P = instr'"
    by (auto simp: parse_def slot_reached_parse_loop parse_loop.simps [of input n i c instr]
             split: sum.splits)
  from parse_loop_result [OF loop]
  have "take (Suc i) instr' = take (Suc i) (instr[i := ins])" by simp
  then have "take (Suc i) instr' ! i = take (Suc i) (instr[i := ins]) ! i" by simp
  with len assms(2) P show ?thesis by simp
qed


subsection \<open>Numbers, prefixes and empty statements\<close>

lemma wrap_step: "wrap (wrap (wrap v * 10) + d) = wrap (v * 10 + d)"
  by (simp add: wrap_def mod_simps)

lemma foldl_wrap:
  "foldl (\<lambda>v c. wrap (wrap (v * 10) + digit_value c)) (wrap r) ds =
   wrap (foldl (\<lambda>v c. v * 10 + digit_value c) r ds)"
  by (induction ds arbitrary: r) (simp_all add: wrap_step)

lemma isChar_in_range:
  "c < length input \<Longrightarrow> isChar input c cs = Inr (input ! c \<in> set cs)"
  by (simp add: isChar_def at_def)

lemma matchChar_in_range:
  "c < length input \<Longrightarrow>
   matchChar input c cs = Inr (if input ! c \<in> set cs then (True, Suc c) else (False, c))"
  by (simp add: matchChar_def isChar_in_range)

lemma parseInt_loop_digits:
  "parseInt_loop input c r b =
     (let ds = takeWhile is_digit (drop c input) in
      if ds = [] then (if b then Inl NoNumberSpecified else Inr (r, c))
      else Inr (foldl (\<lambda>v d. wrap (wrap (v * 10) + digit_value d)) r ds, c + length ds))"
proof (induction input c r b rule: parseInt_loop.induct)
  case (1 input current result noIntParsed)
  show ?case
  proof (cases "eof input current")
    case True
    then show ?thesis
      by (simp add: parseInt_loop.simps [of input current] eof_def)
  next
    case False
    then have range: "current < length input" by (simp add: eof_def)
    then have drop: "drop current input = input ! current # drop (Suc current) input"
      by (simp add: Cons_nth_drop_Suc)
    show ?thesis
    proof (cases "is_digit (input ! current)")
      case True
      with False range have "isChar input current digits = Inr True"
        by (simp add: isChar_in_range is_digit_def)
      from "1.IH" [OF False this] True False range drop show ?thesis
        by (simp add: parseInt_loop.simps [of input current] isChar_in_range is_digit_def Let_def)
    next
      case False
      with \<open>\<not> eof input current\<close> range drop show ?thesis
        by (simp add: parseInt_loop.simps [of input current] isChar_in_range is_digit_def)
    qed
  qed
qed

lemma parseInt_decimal:
  "parseInt input c =
     (let ds = takeWhile is_digit (drop c input) in
      if ds = [] then Inl NoNumberSpecified else Inr (wrap (decimal ds), c + length ds))"
proof -
  have "foldl (\<lambda>v d. wrap (wrap (v * 10) + digit_value d)) (wrap 0) ds = wrap (decimal ds)" for ds
    unfolding decimal_def by (rule foldl_wrap)
  then show ?thesis
    by (simp add: parseInt_def parseInt_loop_digits Let_def wrap_def)
qed

lemma prefix_mismatch:
  assumes "c < length input" and "input ! c = CHR ''L''"
    and "wrap (decimal (takeWhile is_digit (drop (Suc c) input))) \<noteq> i"
  shows "parse_slot input i c =
         Inl (if takeWhile is_digit (drop (Suc c) input) = [] then NoNumberSpecified
              else IncorrectLineNumber)"
  using assms
  by (simp add: parse_slot_def parse_prefix_def parseLineNumber_def isChar_in_range
      matchChar_in_range eof_def parseInt_decimal Let_def)

lemma skipLinesAndSpaces_stops:
  "skipLinesAndSpaces input c < length input \<Longrightarrow>
   input ! skipLinesAndSpaces input c \<notin> set [newline, tab, CHR '' '']"
proof (induction input c rule: skipLinesAndSpaces.induct)
  case (1 input current)
  show ?case
  proof (cases "\<not> eof input current \<and> input ! current \<in> set [newline, tab, CHR '' '']")
    case True
    then have eq: "skipLinesAndSpaces input current = skipLinesAndSpaces input (Suc current)"
      by (subst skipLinesAndSpaces.simps) simp
    from "1.IH" [OF True] "1.prems" show ?thesis
      unfolding eq by blast
  next
    case False
    then have eq: "skipLinesAndSpaces input current = current"
      by (subst skipLinesAndSpaces.simps) auto
    from False "1.prems" show ?thesis
      unfolding eq by (auto simp: eof_def)
  qed
qed

lemma parse_slot_position:
  "parse_slot input i c = Inr (ins, c') \<Longrightarrow> \<exists>c2. c' = skipLinesAndSpaces input c2"
  by (auto simp: parse_slot_def split: sum.splits)

lemma slot_reached_not_blank:
  "slot_reached input n i c instr \<Longrightarrow> c < length input \<Longrightarrow>
   input ! c \<notin> set [newline, tab, CHR '' '']"
proof (induction rule: slot_reached.induct)
  case first
  then show ?case by (rule skipLinesAndSpaces_stops)
next
  case (pass i current instr ins c)
  from parse_slot_position [OF pass.hyps(4)] obtain c2 where "c = skipLinesAndSpaces input c2" ..
  with pass.prems skipLinesAndSpaces_stops [of input c2] show ?case by simp
qed

lemma matchStr_loop_False:
  "pos + length str \<le> Suc (length input) \<Longrightarrow> matchStr_loop input pos str False = Inr False"
  by (induction str arbitrary: pos) (auto simp: at_def)

lemma statement_at_terminator:
  assumes "c + 3 \<le> length input" and "input ! c \<in> set terminators"
  shows "parse_statement input c = Inr (instruction_halt, Suc c)"
proof -
  from assms(1) have range: "c < length input" by simp
  from assms(2) have noR: "input ! c \<noteq> CHR ''R''" and noH: "input ! c \<noteq> CHR ''H''"
    by (auto simp: terminators_def newline_def nul_def)
  from assms(1) have "matchStr_loop input (Suc c) ''ALT'' False = Inr False"
    by (intro matchStr_loop_False) simp
  with range noH have "matchStr input c ''HALT'' = Inr (False, c)"
    by (simp add: matchStr_def at_def)
  with range noR assms(2) show ?thesis
    by (simp add: parse_statement_def eof_def matchChar_in_range)
qed


subsection \<open>What each helper of the parser reads\<close>

text \<open>
  Every helper that succeeds has moved the position forward over a piece of the text that
  the grammar names: blanks, a number, a line number, the end of a line, a statement.
\<close>

lemma digit_not_marker: "is_digit c \<Longrightarrow> c \<noteq> CHR ''L'' \<and> c \<noteq> CHR ''R''"
  by (auto simp: is_digit_def digits_def)

lemma segment_append:
  "a \<le> b \<Longrightarrow> b \<le> c \<Longrightarrow> segment input a c = segment input a b @ segment input b c"
proof -
  assume "a \<le> b" "b \<le> c"
  then have "c - a = (b - a) + (c - b)" by simp
  then have "take (c - a) (drop a input) =
             take (b - a) (drop a input) @ take (c - b) (drop (b - a) (drop a input))"
    by (simp only: take_add)
  with \<open>a \<le> b\<close> show ?thesis by (simp add: segment_def)
qed

lemma segment_empty [simp]: "segment input a a = []"
  by (simp add: segment_def)

lemma segment_Suc: "a < length input \<Longrightarrow> segment input a (Suc a) = [input ! a]"
  by (simp add: segment_def take_Suc_conv_app_nth hd_drop_conv_nth take_Suc)

lemma segment_from_start: "segment input 0 c = take c input"
  by (simp add: segment_def)

lemma blanks_Nil [simp]: "blanks []"
  by (simp add: blanks_def)

lemma gap_Nil [simp]: "gap []"
  by (simp add: gap_def)

lemma skipSpaces_segment:
  "a \<le> skipSpaces input a \<and> (a \<le> length input \<longrightarrow> skipSpaces input a \<le> length input) \<and>
   blanks (segment input a (skipSpaces input a))"
proof (induction input a rule: skipSpaces.induct)
  case (1 input current)
  show ?case
  proof (cases "\<not> eof input current \<and> input ! current \<in> set [tab, CHR '' '']")
    case True
    then have eq: "skipSpaces input current = skipSpaces input (Suc current)"
      by (subst skipSpaces.simps) simp
    from True have range: "current < length input" by (simp add: eof_def)
    from "1.IH" [OF True] have ih: "Suc current \<le> skipSpaces input (Suc current)"
      "skipSpaces input (Suc current) \<le> length input"
      "blanks (segment input (Suc current) (skipSpaces input (Suc current)))"
      using range by auto
    have "segment input current (skipSpaces input (Suc current)) =
          segment input current (Suc current) @
          segment input (Suc current) (skipSpaces input (Suc current))"
      using ih(1) by (intro segment_append) simp_all
    with ih True range show ?thesis
      unfolding eq by (auto simp: segment_Suc blanks_def)
  next
    case False
    then have eq: "skipSpaces input current = current"
      by (subst skipSpaces.simps) auto
    show ?thesis unfolding eq by simp
  qed
qed

lemma skipLinesAndSpaces_segment:
  "a \<le> skipLinesAndSpaces input a \<and>
   (a \<le> length input \<longrightarrow> skipLinesAndSpaces input a \<le> length input) \<and>
   gap (segment input a (skipLinesAndSpaces input a))"
proof (induction input a rule: skipLinesAndSpaces.induct)
  case (1 input current)
  show ?case
  proof (cases "\<not> eof input current \<and> input ! current \<in> set [newline, tab, CHR '' '']")
    case True
    then have eq: "skipLinesAndSpaces input current = skipLinesAndSpaces input (Suc current)"
      by (subst skipLinesAndSpaces.simps) simp
    from True have range: "current < length input" by (simp add: eof_def)
    from "1.IH" [OF True] have ih: "Suc current \<le> skipLinesAndSpaces input (Suc current)"
      "skipLinesAndSpaces input (Suc current) \<le> length input"
      "gap (segment input (Suc current) (skipLinesAndSpaces input (Suc current)))"
      using range by auto
    have "segment input current (skipLinesAndSpaces input (Suc current)) =
          segment input current (Suc current) @
          segment input (Suc current) (skipLinesAndSpaces input (Suc current))"
      using ih(1) by (intro segment_append) simp_all
    with ih True range show ?thesis
      unfolding eq by (auto simp: segment_Suc gap_def)
  next
    case False
    then have eq: "skipLinesAndSpaces input current = current"
      by (subst skipLinesAndSpaces.simps) auto
    show ?thesis unfolding eq by simp
  qed
qed


lemma number_digits:
  "takeWhile is_digit xs \<noteq> [] \<Longrightarrow> number (takeWhile is_digit xs)"
  by (simp add: number_def list_all_iff) (meson set_takeWhileD)

lemma parseInt_segment:
  assumes "parseInt input a = Inr (v, b)"
  shows "a < b \<and> b \<le> length input \<and> number (segment input a b)"
proof -
  let ?ds = "takeWhile is_digit (drop a input)"
  from assms have ds: "?ds \<noteq> []" and b: "b = a + length ?ds"
    by (auto simp: parseInt_decimal Let_def split: if_splits)
  have "length ?ds \<le> length (drop a input)"
    by (rule length_takeWhile_le)
  moreover from ds have "drop a input \<noteq> []" by auto
  ultimately have range: "b \<le> length input" using b by simp
  have "segment input a b = take (length ?ds) (drop a input)"
    by (simp add: segment_def b)
  also have "\<dots> = ?ds"
    by (rule takeWhile_eq_take [symmetric])
  finally show ?thesis
    using ds b range by (simp add: number_digits)
qed

lemma matchChar_True:
  assumes "matchChar input a cs = Inr (True, b)"
  shows "a < length input \<and> b = Suc a \<and> input ! a \<in> set cs \<and> segment input a b = [input ! a]"
  using assms
  by (auto simp: matchChar_def isChar_def at_def segment_Suc split: if_splits)

lemma matchChar_False:
  "matchChar input a cs = Inr (False, b) \<Longrightarrow> b = a"
  by (auto simp: matchChar_def isChar_def at_def split: if_splits)

lemma matchStr_loop_stays_False:
  "matchStr_loop input pos str False \<noteq> Inr True"
  by (induction str arbitrary: pos) (simp_all add: at_def)

lemma matchStr_loop_True:
  "matchStr_loop input pos str True = Inr True \<Longrightarrow>
   (str \<noteq> [] \<longrightarrow> pos + length str \<le> length input) \<and>
   take (length str) (drop pos input) = str"
proof (induction str arbitrary: pos)
  case Nil
  then show ?case by simp
next
  case (Cons c cs)
  from Cons.prems have range: "pos < length input" and c: "input ! pos = c"
    and rest: "matchStr_loop input (Suc pos) cs True = Inr True"
    by (auto simp: at_def matchStr_loop_stays_False split: if_splits)
  from Cons.IH [OF rest] range c show ?case
    by (cases cs) (simp_all add: take_Suc hd_drop_conv_nth drop_Suc tl_drop)
qed

lemma matchStr_True:
  assumes "matchStr input a str = Inr (True, b)" and "str \<noteq> []"
  shows "b = a + length str \<and> b \<le> length input \<and> segment input a b = str"
proof -
  from assms have "matchStr_loop input a str True = Inr True" and "b = a + length str"
    by (auto simp: matchStr_def split: sum.splits if_splits)
  with matchStr_loop_True [of input a str] assms(2) show ?thesis
    by (simp add: segment_def)
qed

lemma matchStr_False: "matchStr input a str = Inr (False, b) \<Longrightarrow> b = a"
  by (auto simp: matchStr_def split: sum.splits if_splits)

lemma parseLineNumber_segment:
  assumes "parseLineNumber input a = Inr (v, b)"
  shows "a < b \<and> b \<le> length input \<and>
         (\<exists>ds. segment input a b = CHR ''L'' # ds \<and> number ds)"
proof -
  from assms obtain c where m: "matchChar input a ''L'' = Inr (True, c)"
    and int: "parseInt input c = Inr (v, b)"
    by (auto simp: parseLineNumber_def split: if_splits sum.splits)
  from matchChar_True [OF m] have c: "c = Suc a" "a < length input"
    "segment input a c = ''L''"
    by auto
  from parseInt_segment [OF int] have b: "c < b" "b \<le> length input" "number (segment input c b)"
    by auto
  have "segment input a b = segment input a c @ segment input c b"
    using c(1) b(1) by (intro segment_append) simp_all
  with c b show ?thesis by simp
qed

lemma parseEOL_segment:
  assumes "parseEOL input a = Inr b" and "a \<le> length input"
  shows "a \<le> b \<and> b \<le> length input \<and>
         (\<exists>e. line_end e (segment input a b) \<and> (e \<longrightarrow> b = length input))"
proof -
  let ?c = "skipSpaces input a"
  from skipSpaces_segment [of a input] assms(2)
  have c: "a \<le> ?c" "?c \<le> length input" "blanks (segment input a ?c)"
    by auto
  show ?thesis
  proof (cases "eof input ?c")
    case True
    with assms(1) have "b = ?c" by (simp add: parseEOL_def)
    moreover from True c(2) have "?c = length input" by (simp add: eof_def)
    ultimately show ?thesis
      using c line_end.by_end_of_input [OF c(3)] by auto
  next
    case False
    with assms(1) have m: "matchChar input ?c terminators = Inr (True, b)"
      by (auto simp: parseEOL_def Let_def split: sum.splits if_splits)
    from matchChar_True [OF m] have b: "?c < length input" "b = Suc ?c"
      "input ! ?c \<in> set terminators" "segment input ?c b = [input ! ?c]"
      by auto
    have "segment input a b = segment input a ?c @ segment input ?c b"
      using c(1) b(2) by (intro segment_append) simp_all
    with b(4) have "segment input a b = segment input a ?c @ [input ! ?c]" by simp
    with line_end.by_terminator [OF c(3) b(3)] have "line_end False (segment input a b)"
      by simp
    with c b show ?thesis by auto
  qed
qed


lemma parse_prefix_segment:
  assumes "parse_prefix input i a = Inr b" and "a \<le> length input"
  shows "a \<le> b \<and> b \<le> length input \<and> (b = a \<or> line_prefix (segment input a b))"
proof (cases "isChar input a ''L'' = Inr True")
  case False
  with assms show ?thesis
    by (auto simp: parse_prefix_def split: sum.splits if_splits)
next
  case True
  with assms(1) obtain v c1 c3 where
    ln: "parseLineNumber input a = Inr (v, c1)"
    and colon: "matchChar input (skipSpaces input c1) '':'' = Inr (True, c3)"
    and b: "b = skipSpaces input c3"
    by (auto simp: parse_prefix_def Let_def split: sum.splits if_splits)
  let ?c2 = "skipSpaces input c1"
  from parseLineNumber_segment [OF ln] obtain ds where
    c1: "a < c1" "c1 \<le> length input" and ds: "segment input a c1 = CHR ''L'' # ds" "number ds"
    by auto
  from skipSpaces_segment [of c1 input] c1(2)
  have c2: "c1 \<le> ?c2" "blanks (segment input c1 ?c2)" by auto
  from matchChar_True [OF colon]
  have c3: "c3 = Suc ?c2" "?c2 < length input" "segment input ?c2 c3 = '':''" by auto
  from skipSpaces_segment [of c3 input] c3(1,2) b
  have b': "c3 \<le> b" "b \<le> length input" "blanks (segment input c3 b)" by auto
  have "segment input a b = segment input a c1 @ segment input c1 b"
    using c1 c2 c3 b' by (intro segment_append) simp_all
  also have "segment input c1 b = segment input c1 ?c2 @ segment input ?c2 b"
    using c2 c3 b' by (intro segment_append) simp_all
  also have "segment input ?c2 b = segment input ?c2 c3 @ segment input c3 b"
    using c3 b' by (intro segment_append) simp_all
  finally have "segment input a b =
      CHR ''L'' # ds @ segment input c1 ?c2 @ '':'' @ segment input c3 b"
    using ds(1) c3(3) by simp
  with line_prefix.intros [OF ds(2) c2(2) b'(3)] have "line_prefix (segment input a b)"
    by simp
  with c1 c2 c3 b' show ?thesis by simp
qed

lemma parse_sign_segment:
  assumes "parse_sign input a = Inr (incr, b)"
  shows "a < length input \<and> b = Suc a \<and> segment input a b = (if incr then ''+'' else ''-'')"
  using assms
  by (auto simp: parse_sign_def at_def segment_Suc split: if_splits)

lemma parse_incr_tail_segment:
  assumes "parse_incr_tail input reg loc1 a = Inr (ins, b)" and "a \<le> length input"
  shows "a \<le> b \<and> b \<le> length input \<and>
         (\<exists>e. line_end e (segment input a b) \<and> (e \<longrightarrow> b = length input))"
proof -
  from assms(1) have "parseEOL input a = Inr b"
    by (auto simp: parse_incr_tail_def split: sum.splits)
  from parseEOL_segment [OF this assms(2)] show ?thesis .
qed

lemma parse_decr_tail_segment:
  assumes "parse_decr_tail input reg loc1 a = Inr (ins, b)" and "a \<le> length input"
  shows "a \<le> b \<and> b \<le> length input \<and>
         (\<exists>s4 s5 l2 le e. segment input a b = s4 @ '','' @ s5 @ CHR ''L'' # l2 @ le \<and>
            blanks s4 \<and> blanks s5 \<and> number l2 \<and> line_end e le \<and> (e \<longrightarrow> b = length input))"
proof -
  let ?c0 = "skipSpaces input a"
  from assms(1) obtain c1 v c2 where
    comma: "matchChar input ?c0 '','' = Inr (True, c1)"
    and ln: "parseLineNumber input (skipSpaces input c1) = Inr (v, c2)"
    and eol: "parseEOL input c2 = Inr b"
    by (auto simp: parse_decr_tail_def split: sum.splits if_splits)
  let ?c1' = "skipSpaces input c1"
  from skipSpaces_segment [of a input] assms(2)
  have c0: "a \<le> ?c0" "blanks (segment input a ?c0)" by auto
  from matchChar_True [OF comma]
  have c1: "c1 = Suc ?c0" "?c0 < length input" "segment input ?c0 c1 = '',''" by auto
  from skipSpaces_segment [of c1 input] c1(1,2)
  have c1': "c1 \<le> ?c1'" "blanks (segment input c1 ?c1')" by auto
  from parseLineNumber_segment [OF ln] obtain l2 where
    c2: "?c1' < c2" "c2 \<le> length input"
    and l2: "segment input ?c1' c2 = CHR ''L'' # l2" "number l2"
    by auto
  from parseEOL_segment [OF eol c2(2)] obtain e where
    b: "c2 \<le> b" "b \<le> length input"
    and le: "line_end e (segment input c2 b)" "e \<longrightarrow> b = length input"
    by auto
  have "segment input a b = segment input a ?c0 @ segment input ?c0 b"
    using c0 c1 c1' c2 b by (intro segment_append) simp_all
  also have "segment input ?c0 b = segment input ?c0 c1 @ segment input c1 b"
    using c1 c1' c2 b by (intro segment_append) simp_all
  also have "segment input c1 b = segment input c1 ?c1' @ segment input ?c1' b"
    using c1' c2 b by (intro segment_append) simp_all
  also have "segment input ?c1' b = segment input ?c1' c2 @ segment input c2 b"
    using c2 b by (intro segment_append) simp_all
  finally have "segment input a b =
      segment input a ?c0 @ '','' @ segment input c1 ?c1' @ CHR ''L'' # l2 @ segment input c2 b"
    using c1(3) l2(1) by simp
  with c0 c1 c1' c2 b l2 le show ?thesis
    by (intro conjI exI [of _ "segment input a ?c0"] exI [of _ "segment input c1 ?c1'"]
        exI [of _ l2] exI [of _ "segment input c2 b"] exI [of _ e]) simp_all
qed


text \<open>The statement read after the \<^verbatim>\<open>R\<close>, with the end of its line.\<close>

lemma parse_register_statement_segment:
  assumes "parse_register_statement input a = Inr (ins, b)"
  shows "a \<le> b \<and> b \<le> length input \<and>
         (\<exists>st le e. CHR ''R'' # segment input a b = st @ le \<and> statement st \<and>
            line_end e le \<and> (e \<longrightarrow> b = length input))"
proof -
  from assms obtain reg c1 incr c2 c3 loc1 c4 where
    int: "parseInt input a = Inr (reg, c1)"
    and sign: "parse_sign input (skipSpaces input c1) = Inr (incr, c2)"
    and arrow: "matchStr input (skipSpaces input c2) ''->'' = Inr (True, c3)"
    and ln: "parseLineNumber input (skipSpaces input c3) = Inr (loc1, c4)"
    and tail: "(if incr then parse_incr_tail input reg loc1 c4
                else parse_decr_tail input reg loc1 c4) = Inr (ins, b)"
    by (auto simp: parse_register_statement_def split: sum.splits if_splits)
  let ?c1' = "skipSpaces input c1" and ?c2' = "skipSpaces input c2"
    and ?c3' = "skipSpaces input c3"
  from parseInt_segment [OF int]
  have c1: "a < c1" "c1 \<le> length input" and r: "number (segment input a c1)" by auto
  from skipSpaces_segment [of c1 input] c1(2)
  have c1': "c1 \<le> ?c1'" and s1: "blanks (segment input c1 ?c1')" by auto
  from parse_sign_segment [OF sign]
  have c2: "?c1' < length input" "c2 = Suc ?c1'"
    and sg: "segment input ?c1' c2 = (if incr then ''+'' else ''-'')" by auto
  from skipSpaces_segment [of c2 input] c2
  have c2': "c2 \<le> ?c2'" and s2: "blanks (segment input c2 ?c2')" by auto
  from matchStr_True [OF arrow]
  have c3: "c3 = ?c2' + 2" "c3 \<le> length input" and ar: "segment input ?c2' c3 = ''->''" by auto
  from skipSpaces_segment [of c3 input] c3(2)
  have c3': "c3 \<le> ?c3'" and s3: "blanks (segment input c3 ?c3')" by auto
  from parseLineNumber_segment [OF ln] obtain l1 where
    c4: "?c3' < c4" "c4 \<le> length input"
    and l1: "segment input ?c3' c4 = CHR ''L'' # l1" "number l1"
    by auto
  have head: "segment input a c4 =
      segment input a c1 @ segment input c1 ?c1' @ (if incr then ''+'' else ''-'') @
      segment input c2 ?c2' @ ''->'' @ segment input c3 ?c3' @ CHR ''L'' # l1"
  proof -
    have "segment input a c4 = segment input a c1 @ segment input c1 c4"
      using c1 c1' c2 c2' c3 c3' c4 by (intro segment_append) simp_all
    also have "segment input c1 c4 = segment input c1 ?c1' @ segment input ?c1' c4"
      using c1' c2 c2' c3 c3' c4 by (intro segment_append) simp_all
    also have "segment input ?c1' c4 = segment input ?c1' c2 @ segment input c2 c4"
      using c2 c2' c3 c3' c4 by (intro segment_append) simp_all
    also have "segment input c2 c4 = segment input c2 ?c2' @ segment input ?c2' c4"
      using c2' c3 c3' c4 by (intro segment_append) simp_all
    also have "segment input ?c2' c4 = segment input ?c2' c3 @ segment input c3 c4"
      using c3 c3' c4 by (intro segment_append) simp_all
    also have "segment input c3 c4 = segment input c3 ?c3' @ segment input ?c3' c4"
      using c3' c4 by (intro segment_append) simp_all
    finally show ?thesis using sg ar l1(1) by simp
  qed
  show ?thesis
  proof (cases incr)
    case True
    with tail have "parse_incr_tail input reg loc1 c4 = Inr (ins, b)" by simp
    from parse_incr_tail_segment [OF this c4(2)] obtain e where
      b: "c4 \<le> b" "b \<le> length input"
      and le: "line_end e (segment input c4 b)" "e \<longrightarrow> b = length input"
      by auto
    have "segment input a b = segment input a c4 @ segment input c4 b"
      using c1 c1' c2 c2' c3 c3' c4 b by (intro segment_append) simp_all
    with head True have "CHR ''R'' # segment input a b =
        (CHR ''R'' # segment input a c1 @ segment input c1 ?c1' @ ''+'' @
         segment input c2 ?c2' @ ''->'' @ segment input c3 ?c3' @ CHR ''L'' # l1) @
        segment input c4 b"
      by simp
    moreover note statement.increment [OF r s1 s2 s3 l1(2)] le
    moreover have "a \<le> b" using c1 c1' c2 c2' c3 c3' c4 b by simp
    ultimately show ?thesis using b(2) by blast
  next
    case False
    with tail have "parse_decr_tail input reg loc1 c4 = Inr (ins, b)" by simp
    from parse_decr_tail_segment [OF this c4(2)] obtain s4 s5 l2 le e where
      b: "c4 \<le> b" "b \<le> length input"
      and seg: "segment input c4 b = s4 @ '','' @ s5 @ CHR ''L'' # l2 @ le"
      and parts: "blanks s4" "blanks s5" "number l2"
      and le: "line_end e le" "e \<longrightarrow> b = length input"
      by auto
    have "segment input a b = segment input a c4 @ segment input c4 b"
      using c1 c1' c2 c2' c3 c3' c4 b by (intro segment_append) simp_all
    with head False seg have "CHR ''R'' # segment input a b =
        (CHR ''R'' # segment input a c1 @ segment input c1 ?c1' @ ''-'' @
         segment input c2 ?c2' @ ''->'' @ segment input c3 ?c3' @ CHR ''L'' # l1 @
         s4 @ '','' @ s5 @ CHR ''L'' # l2) @ le"
      by simp
    moreover note statement.decrement [OF r s1 s2 s3 l1(2) parts] le
    moreover have "a \<le> b" using c1 c1' c2 c2' c3 c3' c4 b by simp
    ultimately show ?thesis using b(2) by blast
  qed
qed

lemma parse_statement_segment:
  assumes "parse_statement input a = Inr (ins, b)" and "a \<le> length input"
  shows "a < b \<and> b \<le> length input \<and>
         (\<exists>st le e. segment input a b = st @ le \<and> statement st \<and>
            line_end e le \<and> (e \<longrightarrow> b = length input))"
proof -
  from assms(1) obtain isReg c1 where first:
    "(if \<not> eof input a then matchChar input a ''R'' else Inr (False, a)) = Inr (isReg, c1)"
    by (auto simp: parse_statement_def split: sum.splits)
  have c1: "\<not> isReg \<Longrightarrow> c1 = a"
    using first by (auto split: if_splits dest: matchChar_False)
  from first assms(1) have rest:
    "(if isReg then parse_register_statement input c1
      else (case matchStr input c1 ''HALT'' of
              Inl e \<Rightarrow> Inl e
            | Inr (isHalt, c2) \<Rightarrow>
                (if isHalt
                 then (case parseEOL input c2 of
                         Inl e \<Rightarrow> Inl e
                       | Inr c3 \<Rightarrow> Inr (instruction_halt, c3))
                 else (case matchChar input c2 terminators of
                         Inl e \<Rightarrow> Inl e
                       | Inr (isEnd, c3) \<Rightarrow>
                           if isEnd then Inr (instruction_halt, c3)
                           else Inl UnexpectedCharacters)))) = Inr (ins, b)"
    by (simp add: parse_statement_def)
  consider
    (reg) "a < length input" "matchChar input a ''R'' = Inr (True, c1)"
      "parse_register_statement input c1 = Inr (ins, b)"
  | (halt) c2 where "matchStr input a ''HALT'' = Inr (True, c2)" "parseEOL input c2 = Inr b"
  | (bare) "matchChar input a terminators = Inr (True, b)"
  proof (cases isReg)
    case True
    with first rest show ?thesis
      by (intro reg) (auto simp: eof_def split: if_splits)
  next
    case False
    with c1 have a: "c1 = a" by simp
    from rest False a obtain isHalt c2 where
      h: "matchStr input a ''HALT'' = Inr (isHalt, c2)"
      by (auto split: sum.splits)
    show ?thesis
    proof (cases isHalt)
      case True
      with rest \<open>\<not> isReg\<close> a h show ?thesis
        by (intro halt [of c2]) (auto split: sum.splits)
    next
      case False
      with h have "c2 = a" by (auto dest: matchStr_False)
      with rest \<open>\<not> isReg\<close> a h False show ?thesis
        by (intro bare) (auto split: sum.splits if_splits)
    qed
  qed
  then show ?thesis
  proof cases
    case reg
    from matchChar_True [OF reg(2)]
    have c1: "c1 = Suc a" "input ! a = CHR ''R''" "segment input a c1 = [input ! a]" by auto
    from parse_register_statement_segment [OF reg(3)] obtain st le e where
      b: "c1 \<le> b" "b \<le> length input"
      and seg: "CHR ''R'' # segment input c1 b = st @ le"
      and parts: "statement st" "line_end e le" "e \<longrightarrow> b = length input"
      by auto
    have "segment input a b = segment input a c1 @ segment input c1 b"
      using c1(1) b(1) by (intro segment_append) simp_all
    with c1 seg have "segment input a b = st @ le" by simp
    with parts b c1(1) show ?thesis by auto
  next
    case halt
    from matchStr_True [OF halt(1)]
    have c2: "c2 = a + 4" "c2 \<le> length input" "segment input a c2 = ''HALT''" by auto
    from parseEOL_segment [OF halt(2) c2(2)] obtain e where
      b: "c2 \<le> b" "b \<le> length input"
      and le: "line_end e (segment input c2 b)" "e \<longrightarrow> b = length input"
      by auto
    have "segment input a b = segment input a c2 @ segment input c2 b"
      using c2(1) b(1) by (intro segment_append) simp_all
    with c2(3) have "segment input a b = ''HALT'' @ segment input c2 b" by simp
    with statement.halt le b c2(1) show ?thesis
      by (intro conjI exI [of _ "''HALT''"] exI [of _ "segment input c2 b"] exI [of _ e])
         simp_all
  next
    case bare
    from matchChar_True [OF bare]
    have b: "b = Suc a" "a < length input" "input ! a \<in> set terminators"
      "segment input a b = [input ! a]" by auto
    from line_end.by_terminator [OF blanks_Nil b(3)] have "line_end False [input ! a]"
      by simp
    with b statement.empty show ?thesis
      by (intro conjI exI [of _ "[]"] exI [of _ "[input ! a]"] exI [of _ False]) simp_all
  qed
qed

lemma parse_slot_segment:
  assumes "parse_slot input i a = Inr (ins, b)" and "a \<le> length input"
  shows "a < b \<and> b \<le> length input \<and>
         (\<exists>e l g. segment input a b = l @ g \<and> line e l \<and> gap g \<and>
            (e \<longrightarrow> g = [] \<and> b = length input))"
proof -
  from assms(1) obtain c1 c2 where
    pre: "parse_prefix input i a = Inr c1"
    and st: "parse_statement input c1 = Inr (ins, c2)"
    and b: "b = skipLinesAndSpaces input c2"
    by (auto simp: parse_slot_def split: sum.splits)
  from parse_prefix_segment [OF pre assms(2)]
  have c1: "a \<le> c1" "c1 \<le> length input" "c1 = a \<or> line_prefix (segment input a c1)"
    by auto
  from parse_statement_segment [OF st c1(2)] obtain stm le e where
    c2: "c1 < c2" "c2 \<le> length input"
    and seg: "segment input c1 c2 = stm @ le"
    and parts: "statement stm" "line_end e le" "e \<longrightarrow> c2 = length input"
    by auto
  from skipLinesAndSpaces_segment [of c2 input] c2(2) b
  have b': "c2 \<le> b" "b \<le> length input" "gap (segment input c2 b)" by auto
  have ended: "e \<longrightarrow> segment input c2 b = [] \<and> b = length input"
    using parts(3) b' by (auto simp: segment_def)
  have split: "segment input a b = segment input a c1 @ segment input c1 c2 @ segment input c2 b"
  proof -
    have "segment input a b = segment input a c1 @ segment input c1 b"
      using c1 c2 b' by (intro segment_append) simp_all
    also have "segment input c1 b = segment input c1 c2 @ segment input c2 b"
      using c2 b' by (intro segment_append) simp_all
    finally show ?thesis .
  qed
  have "line e (segment input a c2)"
  proof -
    have ac2: "segment input a c2 = segment input a c1 @ stm @ le"
      using segment_append [OF c1(1) less_imp_le [OF c2(1)], of input] seg by simp
    from c1(3) show ?thesis
    proof
      assume "c1 = a"
      with ac2 line.plain [OF parts(1,2)] show ?thesis by simp
    next
      assume "line_prefix (segment input a c1)"
      from line.numbered [OF this parts(1,2)] ac2 show ?thesis by simp
    qed
  qed
  moreover have "segment input a b = segment input a c2 @ segment input c2 b"
    using c1 c2 b' by (intro segment_append) simp_all
  ultimately show ?thesis using c1 c2 b' ended by auto
qed

subsection \<open>The text read is a sequence of lines\<close>

text \<open>What the loop has read when it comes to a slot is so many lines of the grammar.\<close>

lemma slot_reached_lines:
  "slot_reached input n i c instr \<Longrightarrow>
   i \<le> c \<and> c \<le> length input \<and>
   (\<exists>e. lines i e (take c input) \<and> (e \<longrightarrow> c = length input))"
proof (induction rule: slot_reached.induct)
  case first
  from skipLinesAndSpaces_segment [of 0 input]
  have "skipLinesAndSpaces input 0 \<le> length input"
    and "gap (take (skipLinesAndSpaces input 0) input)"
    by (simp_all add: segment_from_start)
  with lines.none show ?case by blast
next
  case (pass i current instr ins c)
  from pass.hyps(3) have range: "current < length input" by (simp add: eof_def)
  with pass.IH have before: "lines i False (take current input)" by auto
  from pass.IH have count: "i \<le> current" by simp
  from parse_slot_segment [OF pass.hyps(4)] range obtain e l g where
    c: "current < c" "c \<le> length input"
    and seg: "segment input current c = l @ g"
    and parts: "line e l" "gap g" "e \<longrightarrow> g = [] \<and> c = length input"
    by auto
  from count c(1) have count': "Suc i \<le> c" by simp
  have "segment input 0 c = segment input 0 current @ segment input current c"
    using c(1) by (intro segment_append) simp_all
  with seg have whole: "take c input = take current input @ l @ g"
    by (simp add: segment_from_start)
  show ?case
  proof (cases e)
    case True
    with parts whole lines.last [OF before, of l] c count' show ?thesis by auto
  next
    case False
    with parts whole lines.more [OF before, of l g] c count' show ?thesis by auto
  qed
qed

lemma parse_loop_reaches:
  "parse_loop input n i c instr = Inr (k, c', instr') \<Longrightarrow> slot_reached input n i c instr \<Longrightarrow>
   slot_reached input n k c' instr'"
proof (induction input n i c instr rule: parse_loop.induct)
  case (1 input n i current instr)
  show ?case
  proof (cases "i < n \<and> \<not> eof input current")
    case False
    with "1.prems" show ?thesis
      by (simp add: parse_loop.simps [of input n i current instr])
  next
    case True
    with "1.prems"(1) obtain ins c where slot: "parse_slot input i current = Inr (ins, c)"
      and rest: "parse_loop input n (Suc i) c (instr[i := ins]) = Inr (k, c', instr')"
      by (auto simp: parse_loop.simps [of input n i current instr] split: sum.splits)
    from True slot "1.prems"(2) have "slot_reached input n (Suc i) c (instr[i := ins])"
      by (intro slot_reached.pass) simp_all
    from "1.IH" [OF True slot refl rest this] show ?thesis .
  qed
qed

text \<open>
  A text that parses is, up to the position where the loop stopped, a sequence of lines of
  the grammar; the loop stops before the end of the text only when all slots are filled.
\<close>

lemma parse_loop_follows_grammar:
  assumes "parse_loop input n 0 (skipLinesAndSpaces input 0) (replicate n instruction_halt) =
           Inr (k, c, instr)"
  shows "k \<le> n \<and> k \<le> c \<and> c \<le> length input \<and> length instr = n \<and>
         (\<exists>e. lines k e (take c input)) \<and> (k < n \<longrightarrow> c = length input)"
proof -
  from parse_loop_reaches [OF assms slot_reached.first]
  have "slot_reached input n k c instr" .
  from slot_reached_lines [OF this] obtain e where
    c: "k \<le> c" "c \<le> length input" and l: "lines k e (take c input)"
    by auto
  from parse_loop_result [OF assms] have k: "k \<le> n" "length instr = n"
    and "k < n \<longrightarrow> eof input c"
    by simp_all
  with c have "k < n \<longrightarrow> c = length input" by (auto simp: eof_def)
  with k c l show ?thesis by blast
qed

lemma parse_loop_program_text:
  assumes "parse_loop input n 0 (skipLinesAndSpaces input 0) (replicate n instruction_halt) =
           Inr (k, c, instr)"
    and "k < n"
  shows "program_text input"
proof -
  from parse_loop_follows_grammar [OF assms(1)] assms(2) obtain e where
    "lines k e (take c input)" and "c = length input"
    by auto
  then have "lines k e input" by simp
  then show ?thesis
    unfolding program_text_def by blast
qed

lemma parse_follows_grammar:
  assumes "parse r n input = Inr P"
  shows "length (instructions P) = n \<and>
         (\<exists>k c e. k \<le> n \<and> c \<le> length input \<and> lines k e (take c input) \<and>
            (k < n \<longrightarrow> c = length input)) \<and>
         (length input < n \<longrightarrow> program_text input)"
proof -
  from assms obtain k c where
    loop: "parse_loop input n 0 (skipLinesAndSpaces input 0) (replicate n instruction_halt) =
           Inr (k, c, instructions P)"
    by (auto simp: parse_def split: sum.splits)
  from parse_loop_follows_grammar [OF loop] obtain e where
    facts: "k \<le> n" "k \<le> c" "c \<le> length input" "length (instructions P) = n"
      "lines k e (take c input)" "k < n \<longrightarrow> c = length input"
    by auto
  have "length input < n \<longrightarrow> program_text input"
  proof
    assume "length input < n"
    with facts(2,3) have "k < n" by simp
    from parse_loop_program_text [OF loop this] show "program_text input" .
  qed
  with facts show ?thesis by blast
qed

subsection \<open>Characters outside the grammar\<close>

lemma at_sign_class:
  "CHR ''@'' \<noteq> tab" "CHR ''@'' \<noteq> newline" "\<not> is_digit CHR ''@''"
  "CHR ''@'' \<notin> set terminators"
  by (simp_all add: tab_def newline_def nul_def is_digit_def digits_def terminators_def)

lemma blanks_no_at: "blanks s \<Longrightarrow> CHR ''@'' \<notin> set s"
  using at_sign_class by (induction s) (auto simp: blanks_def)

lemma gap_no_at: "gap s \<Longrightarrow> CHR ''@'' \<notin> set s"
  using at_sign_class by (induction s) (auto simp: gap_def)

lemma number_no_at: "number s \<Longrightarrow> CHR ''@'' \<notin> set s"
proof -
  have "list_all is_digit s \<Longrightarrow> CHR ''@'' \<notin> set s"
    using at_sign_class by (induction s) auto
  then show "number s \<Longrightarrow> CHR ''@'' \<notin> set s"
    by (simp add: number_def)
qed

lemma line_prefix_no_at: "line_prefix s \<Longrightarrow> CHR ''@'' \<notin> set s"
  by (induction rule: line_prefix.induct) (simp add: blanks_no_at number_no_at)

lemma statement_no_at: "statement s \<Longrightarrow> CHR ''@'' \<notin> set s"
  by (induction rule: statement.induct) (simp_all add: blanks_no_at number_no_at)

lemma line_end_no_at: "line_end e s \<Longrightarrow> CHR ''@'' \<notin> set s"
  by (induction rule: line_end.induct) (use at_sign_class in \<open>auto simp: blanks_no_at\<close>)

lemma line_no_at: "line e s \<Longrightarrow> CHR ''@'' \<notin> set s"
  by (induction rule: line.induct)
     (simp_all add: line_prefix_no_at statement_no_at line_end_no_at)

lemma lines_no_at: "lines k e s \<Longrightarrow> CHR ''@'' \<notin> set s"
  by (induction rule: lines.induct) (simp_all add: gap_no_at line_no_at)

lemma program_text_no_at: "program_text s \<Longrightarrow> CHR ''@'' \<notin> set s"
  by (auto simp: program_text_def dest: lines_no_at)

subsection \<open>The text after the slots read has no part in the result\<close>

lemma agree_nth:
  assumes "agree K input input'" and "k < K"
  shows "input' ! k = input ! k" and "k < length input" and "k < length input'"
proof -
  from assms have "take K input' ! k = take K input ! k" by (simp add: agree_def)
  with assms(2) show "input' ! k = input ! k" by simp
  from assms show "k < length input" and "k < length input'" by (simp_all add: agree_def)
qed

lemma agree_at: "agree K input input' \<Longrightarrow> k < K \<Longrightarrow> at input' k = at input k"
  by (simp add: at_def agree_nth)

lemma agree_eof: "agree K input input' \<Longrightarrow> k < K \<Longrightarrow> \<not> eof input k \<and> \<not> eof input' k"
  using agree_nth(2,3) [of K input input' k] by (simp add: eof_def)

lemma agree_isChar: "agree K input input' \<Longrightarrow> k < K \<Longrightarrow> isChar input' k cs = isChar input k cs"
  by (simp add: isChar_def agree_at)

lemma agree_matchChar:
  "agree K input input' \<Longrightarrow> k < K \<Longrightarrow> matchChar input' k cs = matchChar input k cs"
  by (simp add: matchChar_def agree_isChar)

lemma agree_skipSpaces:
  "agree K input input' \<Longrightarrow> skipSpaces input a < K \<Longrightarrow>
   skipSpaces input' a = skipSpaces input a"
proof (induction input a rule: skipSpaces.induct)
  case (1 input current)
  from skipSpaces_segment [of current input] "1.prems"(2) have range: "current < K" by simp
  note same = agree_nth [OF "1.prems"(1) range]
  show ?case
  proof (cases "\<not> eof input current \<and> input ! current \<in> set [tab, CHR '' '']")
    case True
    then have eq: "skipSpaces input current = skipSpaces input (Suc current)"
      by (subst skipSpaces.simps) simp
    from True same have "skipSpaces input' current = skipSpaces input' (Suc current)"
      by (subst skipSpaces.simps) (simp add: eof_def)
    with "1.IH" [OF True "1.prems"(1)] "1.prems"(2) eq show ?thesis by simp
  next
    case False
    then have eq: "skipSpaces input current = current"
      by (subst skipSpaces.simps) auto
    from False same have "skipSpaces input' current = current"
      by (subst skipSpaces.simps) (auto simp: eof_def)
    with eq show ?thesis by simp
  qed
qed

lemma agree_skipLinesAndSpaces:
  "agree K input input' \<Longrightarrow> skipLinesAndSpaces input a < K \<Longrightarrow>
   skipLinesAndSpaces input' a = skipLinesAndSpaces input a"
proof (induction input a rule: skipLinesAndSpaces.induct)
  case (1 input current)
  from skipLinesAndSpaces_segment [of current input] "1.prems"(2) have range: "current < K"
    by simp
  note same = agree_nth [OF "1.prems"(1) range]
  show ?case
  proof (cases "\<not> eof input current \<and> input ! current \<in> set [newline, tab, CHR '' '']")
    case True
    then have eq: "skipLinesAndSpaces input current = skipLinesAndSpaces input (Suc current)"
      by (subst skipLinesAndSpaces.simps) simp
    from True same
    have "skipLinesAndSpaces input' current = skipLinesAndSpaces input' (Suc current)"
      by (subst skipLinesAndSpaces.simps) (simp add: eof_def)
    with "1.IH" [OF True "1.prems"(1)] "1.prems"(2) eq show ?thesis by simp
  next
    case False
    then have eq: "skipLinesAndSpaces input current = current"
      by (subst skipLinesAndSpaces.simps) auto
    from False same have "skipLinesAndSpaces input' current = current"
      by (subst skipLinesAndSpaces.simps) (auto simp: eof_def)
    with eq show ?thesis by simp
  qed
qed

lemma parseInt_loop_position:
  "parseInt_loop input a r f = Inr (v, b) \<Longrightarrow> a \<le> b"
  by (auto simp: parseInt_loop_digits Let_def split: if_splits)

lemma agree_parseInt_loop:
  "agree K input input' \<Longrightarrow> parseInt_loop input a r f = Inr (v, b) \<Longrightarrow> b < K \<Longrightarrow>
   parseInt_loop input' a r f = Inr (v, b)"
proof (induction input a r f rule: parseInt_loop.induct)
  case (1 input current result noIntParsed)
  from parseInt_loop_position [OF "1.prems"(2)] "1.prems"(3) have range: "current < K" by simp
  note same = agree_nth [OF "1.prems"(1) range]
  from same have noeof: "\<not> eof input current" "\<not> eof input' current"
    by (simp_all add: eof_def)
  from same have ch: "isChar input' current digits = isChar input current digits"
    "isChar input current digits = Inr (input ! current \<in> set digits)"
    by (simp_all add: isChar_def at_def)
  show ?case
  proof (cases "input ! current \<in> set digits")
    case True
    with noeof ch "1.prems"(2)
    have rest: "parseInt_loop input (Suc current)
        (wrap (wrap (result * 10) + digit_value (input ! current))) False = Inr (v, b)"
      by (simp add: parseInt_loop.simps [of input current])
    from "1.IH" [OF noeof(1) ch(2) True "1.prems"(1) rest "1.prems"(3)] True noeof ch same
    show ?thesis
      by (simp add: parseInt_loop.simps [of input' current])
  next
    case False
    with noeof ch "1.prems"(2) show ?thesis
      by (simp add: parseInt_loop.simps [of input current] parseInt_loop.simps [of input' current])
  qed
qed

lemma agree_parseInt:
  "agree K input input' \<Longrightarrow> parseInt input a = Inr (v, b) \<Longrightarrow> b < K \<Longrightarrow>
   parseInt input' a = Inr (v, b)"
  unfolding parseInt_def by (rule agree_parseInt_loop)

lemma agree_matchStr_loop:
  "agree K input input' \<Longrightarrow> pos + length str \<le> K \<Longrightarrow>
   matchStr_loop input' pos str s = matchStr_loop input pos str s"
proof (induction str arbitrary: pos s)
  case Nil
  show ?case by simp
next
  case (Cons c cs)
  from Cons.prems have range: "pos < K" by simp
  note same = agree_nth [OF Cons.prems(1) range]
  from Cons.prems have "Suc pos + length cs \<le> K" by simp
  from Cons.IH [OF Cons.prems(1) this] same show ?case
    by (simp add: at_def)
qed

lemma agree_matchStr:
  "agree K input input' \<Longrightarrow> a + length str \<le> K \<Longrightarrow>
   matchStr input' a str = matchStr input a str"
  by (simp add: matchStr_def agree_matchStr_loop)


lemma agree_parseLineNumber:
  assumes "agree K input input'" and "parseLineNumber input a = Inr (v, b)" and "b < K"
  shows "parseLineNumber input' a = Inr (v, b)"
proof -
  from parseLineNumber_segment [OF assms(2)] assms(3) have a: "a < K" by simp
  from assms(2) obtain c where m: "matchChar input a ''L'' = Inr (True, c)"
    and int: "parseInt input c = Inr (v, b)"
    by (auto simp: parseLineNumber_def split: if_splits sum.splits)
  from agree_parseInt [OF assms(1) int assms(3)] agree_matchChar [OF assms(1) a] m
    agree_eof [OF assms(1) a]
  show ?thesis
    by (simp add: parseLineNumber_def)
qed

lemma agree_parseEOL:
  assumes "agree K input input'" and "parseEOL input a = Inr b" and "b < K"
  shows "parseEOL input' a = Inr b"
proof -
  let ?c = "skipSpaces input a"
  have noeof: "\<not> eof input ?c"
  proof
    assume "eof input ?c"
    with assms(2) have "b = ?c" by (simp add: parseEOL_def)
    with \<open>eof input ?c\<close> assms(1,3) show False by (simp add: eof_def agree_def)
  qed
  with assms(2) have m: "matchChar input ?c terminators = Inr (True, b)"
    by (auto simp: parseEOL_def Let_def split: sum.splits if_splits)
  from matchChar_True [OF m] assms(3) have c: "?c < K" by simp
  from agree_skipSpaces [OF assms(1) c] agree_matchChar [OF assms(1) c] m
    agree_eof [OF assms(1) c]
  show ?thesis
    by (simp add: parseEOL_def)
qed

lemma agree_parse_prefix:
  assumes "agree K input input'" and "parse_prefix input i a = Inr b" and "a \<le> b" and "b < K"
  shows "parse_prefix input' i a = Inr b"
proof -
  from assms(3,4) have a: "a < K" by simp
  note L = agree_isChar [OF assms(1) a, of "''L''"]
  show ?thesis
  proof (cases "isChar input a ''L'' = Inr True")
    case False
    with assms(2) L show ?thesis
      by (auto simp: parse_prefix_def split: sum.splits if_splits)
  next
    case True
    with assms(2) obtain v c1 c3 where
      ln: "parseLineNumber input a = Inr (v, c1)" and v: "v = i"
      and noeof: "\<not> eof input (skipSpaces input c1)"
      and colon: "matchChar input (skipSpaces input c1) '':'' = Inr (True, c3)"
      and b: "b = skipSpaces input c3"
      by (auto simp: parse_prefix_def Let_def split: sum.splits if_splits)
    let ?c2 = "skipSpaces input c1"
    from matchChar_True [OF colon] have c3: "c3 = Suc ?c2" by simp
    from skipSpaces_segment [of c3 input] b assms(4) have "c3 < K" by simp
    with c3 have c2: "?c2 < K" by simp
    with skipSpaces_segment [of c1 input] have c1: "c1 < K" by simp
    from agree_parseLineNumber [OF assms(1) ln c1] agree_skipSpaces [OF assms(1) c2]
      agree_eof [OF assms(1) c2] agree_matchChar [OF assms(1) c2, of "'':''"] colon
      agree_skipSpaces [OF assms(1), of c3] b assms(4) True L v
    show ?thesis
      by (simp add: parse_prefix_def)
  qed
qed

lemma agree_parse_sign:
  assumes "agree K input input'" and "parse_sign input a = Inr (incr, b)" and "b < K"
  shows "parse_sign input' a = Inr (incr, b)"
proof -
  from parse_sign_segment [OF assms(2)] assms(3) have "a < K" by simp
  from agree_at [OF assms(1) this] assms(2) show ?thesis
    by (simp add: parse_sign_def)
qed

lemma agree_parse_incr_tail:
  assumes "agree K input input'" and "parse_incr_tail input reg loc1 a = Inr (ins, b)"
    and "b < K"
  shows "parse_incr_tail input' reg loc1 a = Inr (ins, b)"
proof -
  from assms(2) obtain c where eol: "parseEOL input a = Inr c"
    and res: "ins = instruction_incr reg loc1" "b = c"
    by (auto simp: parse_incr_tail_def split: sum.splits)
  from agree_parseEOL [OF assms(1) eol] assms(3) res show ?thesis
    by (simp add: parse_incr_tail_def)
qed

lemma parseEOL_position: "parseEOL input a = Inr b \<Longrightarrow> a \<le> b"
  using skipSpaces_segment [of a input]
  by (auto simp: parseEOL_def Let_def split: if_splits sum.splits dest!: matchChar_True)

lemma agree_parse_decr_tail:
  assumes "agree K input input'" and "parse_decr_tail input reg loc1 a = Inr (ins, b)"
    and "b < K"
  shows "parse_decr_tail input' reg loc1 a = Inr (ins, b)"
proof -
  let ?c0 = "skipSpaces input a"
  from assms(2) obtain c1 v c2 where
    comma: "matchChar input ?c0 '','' = Inr (True, c1)"
    and ln: "parseLineNumber input (skipSpaces input c1) = Inr (v, c2)"
    and eol: "parseEOL input c2 = Inr b"
    and ins: "ins = instruction_decr reg loc1 v"
    by (auto simp: parse_decr_tail_def split: sum.splits if_splits)
  from parseEOL_position [OF eol] assms(3) have c2: "c2 < K" by simp
  with parseLineNumber_segment [OF ln] have c1': "skipSpaces input c1 < K" by simp
  with skipSpaces_segment [of c1 input] have c1: "c1 < K" by simp
  with matchChar_True [OF comma] have c0: "?c0 < K" by simp
  from agree_skipSpaces [OF assms(1) c0] agree_matchChar [OF assms(1) c0, of "'',''"] comma
    agree_skipSpaces [OF assms(1) c1'] agree_parseLineNumber [OF assms(1) ln c2]
    agree_parseEOL [OF assms(1) eol assms(3)] ins
  show ?thesis
    by (simp add: parse_decr_tail_def)
qed

lemma tail_position:
  "parse_incr_tail input reg loc1 a = Inr (ins, b) \<Longrightarrow> a \<le> b"
  "parse_decr_tail input reg loc1 a = Inr (ins, b) \<Longrightarrow> a \<le> b"
proof -
  assume "parse_incr_tail input reg loc1 a = Inr (ins, b)"
  then show "a \<le> b"
    by (auto simp: parse_incr_tail_def split: sum.splits dest: parseEOL_position)
next
  assume "parse_decr_tail input reg loc1 a = Inr (ins, b)"
  then obtain c1 v c2 where
    comma: "matchChar input (skipSpaces input a) '','' = Inr (True, c1)"
    and ln: "parseLineNumber input (skipSpaces input c1) = Inr (v, c2)"
    and eol: "parseEOL input c2 = Inr b"
    by (auto simp: parse_decr_tail_def split: sum.splits if_splits)
  from skipSpaces_segment [of a input] matchChar_True [OF comma] skipSpaces_segment [of c1 input]
    parseLineNumber_segment [OF ln] parseEOL_position [OF eol]
  show "a \<le> b" by simp
qed

lemma agree_parse_register_statement:
  assumes "agree K input input'" and "parse_register_statement input a = Inr (ins, b)"
    and "b < K"
  shows "parse_register_statement input' a = Inr (ins, b)"
proof -
  from assms(2) obtain reg c1 incr c2 c3 loc1 c4 where
    int: "parseInt input a = Inr (reg, c1)"
    and sign: "parse_sign input (skipSpaces input c1) = Inr (incr, c2)"
    and arrow: "matchStr input (skipSpaces input c2) ''->'' = Inr (True, c3)"
    and ln: "parseLineNumber input (skipSpaces input c3) = Inr (loc1, c4)"
    and tail: "(if incr then parse_incr_tail input reg loc1 c4
                else parse_decr_tail input reg loc1 c4) = Inr (ins, b)"
    by (auto simp: parse_register_statement_def split: sum.splits if_splits)
  from tail tail_position [of input reg loc1 c4 ins b] assms(3) have c4: "c4 < K"
    by (auto split: if_splits)
  with parseLineNumber_segment [OF ln] have c3': "skipSpaces input c3 < K" by simp
  with skipSpaces_segment [of c3 input] have c3: "c3 < K" by simp
  with matchStr_True [OF arrow] have c2': "skipSpaces input c2 + length ''->'' \<le> K"
    "skipSpaces input c2 < K"
    by simp_all
  with skipSpaces_segment [of c2 input] have c2: "c2 < K" by simp
  with parse_sign_segment [OF sign] have c1': "skipSpaces input c1 < K" by simp
  with skipSpaces_segment [of c1 input] have c1: "c1 < K" by simp
  have tail': "(if incr then parse_incr_tail input' reg loc1 c4
                else parse_decr_tail input' reg loc1 c4) = Inr (ins, b)"
    using tail agree_parse_incr_tail [OF assms(1) _ assms(3), of reg loc1 c4 ins]
      agree_parse_decr_tail [OF assms(1) _ assms(3), of reg loc1 c4 ins]
    by (auto split: if_splits)
  from agree_parseInt [OF assms(1) int c1] agree_skipSpaces [OF assms(1) c1']
    agree_parse_sign [OF assms(1) sign c2] agree_skipSpaces [OF assms(1) c2'(2)]
    agree_matchStr [OF assms(1) c2'(1)] arrow agree_skipSpaces [OF assms(1) c3']
    agree_parseLineNumber [OF assms(1) ln c4] tail'
  show ?thesis
    by (simp add: parse_register_statement_def)
qed


lemma agree_parse_statement:
  assumes "agree K input input'" and "parse_statement input a = Inr (ins, b)"
    and "a \<le> length input" and "b + 3 \<le> K"
  shows "parse_statement input' a = Inr (ins, b)"
proof -
  from parse_statement_segment [OF assms(2,3)] have ab: "a < b" by simp
  with assms(4) have a: "a < K" and a4: "a + length ''HALT'' \<le> K" and b: "b < K"
    by simp_all
  note noeof = agree_eof [OF assms(1) a]
  note R = agree_matchChar [OF assms(1) a, of "''R''"]
  note H = agree_matchStr [OF assms(1) a4]
  note T = agree_matchChar [OF assms(1) a, of terminators]
  from noeof assms(2) obtain isReg c1 where first: "matchChar input a ''R'' = Inr (isReg, c1)"
    by (auto simp: parse_statement_def split: sum.splits)
  show ?thesis
  proof (cases isReg)
    case True
    with first noeof assms(2) have "parse_register_statement input c1 = Inr (ins, b)"
      by (simp add: parse_statement_def)
    from agree_parse_register_statement [OF assms(1) this b] True first noeof R
    show ?thesis
      by (simp add: parse_statement_def)
  next
    case False
    with first have c1: "c1 = a" by (auto dest: matchChar_False)
    from False first noeof assms(2) c1 obtain isHalt c2 where
      h: "matchStr input a ''HALT'' = Inr (isHalt, c2)"
      by (auto simp: parse_statement_def split: sum.splits)
    show ?thesis
    proof (cases isHalt)
      case True
      with False first noeof assms(2) c1 h have eol: "parseEOL input c2 = Inr b"
        and ins: "ins = instruction_halt"
        by (auto simp: parse_statement_def split: sum.splits)
      from agree_parseEOL [OF assms(1) eol b] ins True False first noeof R H h c1
      show ?thesis
        by (simp add: parse_statement_def)
    next
      case nohalt: False
      with h have c2: "c2 = a" by (auto dest: matchStr_False)
      from nohalt False first noeof assms(2) c1 h c2
      have "matchChar input a terminators = Inr (True, b)" and ins: "ins = instruction_halt"
        by (auto simp: parse_statement_def split: sum.splits if_splits)
      with nohalt False first noeof R H T h c1 c2 show ?thesis
        by (simp add: parse_statement_def)
    qed
  qed
qed

lemma agree_parse_slot:
  assumes "agree K input input'" and "parse_slot input i a = Inr (ins, b)"
    and "a \<le> length input" and "b + 3 \<le> K"
  shows "parse_slot input' i a = Inr (ins, b)"
proof -
  from assms(2) obtain c1 c2 where
    pre: "parse_prefix input i a = Inr c1"
    and st: "parse_statement input c1 = Inr (ins, c2)"
    and b: "b = skipLinesAndSpaces input c2"
    by (auto simp: parse_slot_def split: sum.splits)
  from parse_prefix_segment [OF pre assms(3)] have c1: "a \<le> c1" "c1 \<le> length input"
    by simp_all
  from parse_statement_segment [OF st c1(2)] have c2: "c1 < c2" by simp
  from skipLinesAndSpaces_segment [of c2 input] b have c2b: "c2 \<le> b" by simp
  from c2 c2b assms(4) have bounds: "c1 < K" "c2 + 3 \<le> K" "skipLinesAndSpaces input c2 < K"
    using b by simp_all
  from agree_parse_prefix [OF assms(1) pre c1(1) bounds(1)]
    agree_parse_statement [OF assms(1) st c1(2) bounds(2)]
    agree_skipLinesAndSpaces [OF assms(1) bounds(3)] b
  show ?thesis
    by (simp add: parse_slot_def)
qed

text \<open>
  The slots read up to a position are the same in every text that has the same characters
  up to three places after it.
\<close>

lemma agree_slot_reached:
  "slot_reached input n k c instr \<Longrightarrow> agree K input input' \<Longrightarrow> c + 3 \<le> K \<Longrightarrow>
   slot_reached input' n k c instr"
proof (induction rule: slot_reached.induct)
  case first
  then have "skipLinesAndSpaces input 0 < K" by simp
  from agree_skipLinesAndSpaces [OF first(1) this] slot_reached.first [of input' n]
  show ?case by simp
next
  case (pass i current instr ins c)
  from pass.hyps(3) have range: "current \<le> length input" by (simp add: eof_def)
  from parse_slot_segment [OF pass.hyps(4) range] have less: "current < c" by simp
  with pass.prems have cur: "current + 3 \<le> K" "current < K" by simp_all
  from pass.IH [OF pass.prems(1) cur(1)] have before: "slot_reached input' n i current instr" .
  from agree_eof [OF pass.prems(1) cur(2)] have noeof: "\<not> eof input' current" by simp
  from agree_parse_slot [OF pass.prems(1) pass.hyps(4) range pass.prems(2)]
  have "parse_slot input' i current = Inr (ins, c)" .
  from slot_reached.pass [OF before pass.hyps(2) noeof this] show ?case .
qed

lemma slot_reached_stops:
  assumes "slot_reached input n k c instr" and "k = n \<or> eof input c"
  shows "parse_loop input n 0 (skipLinesAndSpaces input 0) (replicate n instruction_halt) =
         Inr (k, c, instr)"
  using assms
  by (auto simp: slot_reached_parse_loop parse_loop.simps [of input n k c instr])

lemma all_slots_reached:
  assumes "slot_reached input n n c instr"
  shows "parse r n input = Inr \<lparr>maxRegisters = r, instructions = instr\<rparr>"
  using slot_reached_stops [OF assms] by (simp add: parse_def)


text \<open>
  Once \<open>n\<close> slots are read up to position \<open>c\<close>, every text with the same first \<open>c + 3\<close>
  characters parses, at capacity \<open>n\<close>, to the same program.
\<close>

lemma trailing_text_ignored:
  assumes "slot_reached input n n c instr" and "c + 3 \<le> length input"
    and "c + 3 \<le> length input'" and "take (c + 3) input' = take (c + 3) input"
  shows "parse r n input' = Inr \<lparr>maxRegisters = r, instructions = instr\<rparr>"
proof -
  from assms(2-4) have "agree (c + 3) input input'" by (simp add: agree_def)
  from agree_slot_reached [OF assms(1) this] have "slot_reached input' n n c instr" by simp
  then show ?thesis by (rule all_slots_reached)
qed




subsection \<open>Texts that cannot be read as lines\<close>

lemma parse_loop_stops_at_lines:
  assumes "parse_loop input n 0 (skipLinesAndSpaces input 0) (replicate n instruction_halt) =
           Inr (k, c, instr)"
  shows "k \<le> n \<and> c \<le> length input \<and> length instr = n \<and>
         (\<exists>e. lines k e (take c input) \<and> (e \<longrightarrow> c = length input)) \<and>
         (k < n \<longrightarrow> c = length input)"
proof -
  from parse_loop_reaches [OF assms slot_reached.first]
  have "slot_reached input n k c instr" .
  from slot_reached_lines [OF this] obtain e where
    c: "c \<le> length input" and l: "lines k e (take c input)" "e \<longrightarrow> c = length input"
    by auto
  from parse_loop_result [OF assms] have k: "k \<le> n" "length instr = n"
    and "k < n \<longrightarrow> eof input c"
    by simp_all
  with c have "k < n \<longrightarrow> c = length input" by (auto simp: eof_def)
  with k c l show ?thesis by blast
qed

lemma parse_reads_as_lines:
  assumes "parse r n input = Inr P"
  shows "reads_as_lines n input"
proof -
  from assms obtain k c where
    "parse_loop input n 0 (skipLinesAndSpaces input 0) (replicate n instruction_halt) =
     Inr (k, c, instructions P)"
    by (auto simp: parse_def split: sum.splits)
  from parse_loop_stops_at_lines [OF this] show ?thesis
    unfolding reads_as_lines_def by blast
qed

lemma line_has_terminator: "line False l \<Longrightarrow> \<exists>t \<in> set l. t \<in> set terminators"
proof (induction "False" l rule: line.induct)
  case (plain st le)
  from plain(2) obtain b t where "le = b @ [t]" "t \<in> set terminators"
    by (auto elim: line_end.cases)
  then show ?case by auto
next
  case (numbered p st le)
  from numbered(3) obtain b t where "le = b @ [t]" "t \<in> set terminators"
    by (auto elim: line_end.cases)
  then show ?case by auto
qed

lemma lines_terminators:
  "lines k e s \<Longrightarrow> \<not> e \<Longrightarrow> k \<le> length (filter (\<lambda>x. x \<in> set terminators) s)"
proof (induction rule: lines.induct)
  case (none g)
  show ?case by simp
next
  case (more k s l g)
  from line_has_terminator [OF more.hyps(2)]
  have "filter (\<lambda>x. x \<in> set terminators) l \<noteq> []"
    by (auto simp: filter_empty_conv)
  then have "1 \<le> length (filter (\<lambda>x. x \<in> set terminators) l)"
    by (cases "filter (\<lambda>x. x \<in> set terminators) l") simp_all
  with more.IH show ?case by simp
next
  case (last k s l)
  then show ?case by simp
qed

lemma filter_take_length: "length (filter P (take c s)) \<le> length (filter P s)"
proof -
  have "length (filter P s) = length (filter P (take c s @ drop c s))" by simp
  also have "\<dots> = length (filter P (take c s)) + length (filter P (drop c s))"
    by (simp only: filter_append length_append)
  finally show ?thesis by simp
qed

lemma garbage_not_read: "\<not> reads_as_lines 2 ''HALT;@@@@''"
proof
  let ?s = "''HALT;@@@@''"
  assume "reads_as_lines 2 ?s"
  then obtain k c e where k: "k \<le> 2" and l: "lines k e (take c ?s)"
    and e: "e \<longrightarrow> c = length ?s" and full: "k < 2 \<longrightarrow> c = length ?s"
    by (auto simp: reads_as_lines_def)
  have short: "c \<le> 5"
  proof (rule ccontr)
    assume "\<not> c \<le> 5"
    then have "take c ?s ! 5 = CHR ''@''" by simp
    moreover from \<open>\<not> c \<le> 5\<close> have "5 < length (take c ?s)" by simp
    ultimately have "CHR ''@'' \<in> set (take c ?s)" by (metis nth_mem)
    with lines_no_at [OF l] show False by simp
  qed
  with e full k have "\<not> e" and "k = 2" by auto
  from lines_terminators [OF l \<open>\<not> e\<close>] \<open>k = 2\<close>
  have "2 \<le> length (filter (\<lambda>x. x \<in> set terminators) (take c ?s))" by simp
  also have "\<dots> \<le> length (filter (\<lambda>x. x \<in> set terminators) ?s)"
    by (rule filter_take_length)
  also have "\<dots> = 1"
    by (simp add: terminators_def newline_def nul_def)
  finally show False by simp
qed

subsection \<open>The grammar gives the lexical shape the scan relies on\<close>

lemma blanks_Cons: "blanks (c # s) = ((c = CHR '' '' \<or> c = tab) \<and> blanks s)"
  by (simp add: blanks_def)

lemma gap_Cons: "gap (c # s) = ((c = newline \<or> c = tab \<or> c = CHR '' '') \<and> gap s)"
  by (simp add: gap_def)

lemma blank_chars:
  "newline \<noteq> CHR ''L''" "newline \<noteq> CHR ''R''" "\<not> is_digit newline"
  "tab \<noteq> CHR ''L''" "tab \<noteq> CHR ''R''" "\<not> is_digit tab"
  "\<not> is_digit CHR '' ''"
  by (simp_all add: newline_def tab_def is_digit_def digits_def)

lemma terminator_class:
  "t \<in> set terminators \<Longrightarrow> t \<noteq> CHR ''L'' \<and> t \<noteq> CHR ''R'' \<and> \<not> is_digit t"
  by (auto simp: terminators_def newline_def nul_def is_digit_def digits_def)

lemma sign_class:
  "\<not> is_digit CHR ''+''" "\<not> is_digit CHR ''-''" "\<not> is_digit CHR ''>''" "\<not> is_digit CHR '':''"
  "\<not> is_digit CHR '',''" "\<not> is_digit CHR ''H''" "\<not> is_digit CHR ''A''" "\<not> is_digit CHR ''T''"
  "\<not> is_digit CHR ''L''" "\<not> is_digit CHR ''R''"
  by (simp_all add: is_digit_def digits_def)

lemma lex_ok_gap: "gap g \<Longrightarrow> lex_ok Delimiter (g @ x) = lex_ok Delimiter x"
  by (induction g) (auto simp: gap_Cons blank_chars)

lemma lex_ok_blanks: "blanks b \<Longrightarrow> lex_ok Delimiter (b @ x) = lex_ok Delimiter x"
  by (induction b) (auto simp: blanks_Cons blank_chars)

lemma lex_ok_blanks_only: "blanks b \<Longrightarrow> lex_ok k b"
  by (induction b arbitrary: k) (auto simp: blanks_Cons blank_chars)

text \<open>Blanks and then a character that is neither a marker nor a digit, after anything.\<close>

lemma lex_ok_blanks_then:
  "blanks b \<Longrightarrow> d \<noteq> CHR ''L'' \<Longrightarrow> d \<noteq> CHR ''R'' \<Longrightarrow> \<not> is_digit d \<Longrightarrow>
   lex_ok k (b @ d # x) = lex_ok Delimiter x"
  by (induction b arbitrary: k) (auto simp: blanks_Cons blank_chars)

lemma lex_ok_number: "number n \<Longrightarrow> lex_ok Marker (n @ x) = lex_ok Digit x"
proof -
  have "list_all is_digit n \<Longrightarrow> k \<noteq> Delimiter \<Longrightarrow> n \<noteq> [] \<Longrightarrow>
        lex_ok k (n @ x) = lex_ok Digit x" for k
  proof (induction n arbitrary: k)
    case Nil
    then show ?case by simp
  next
    case (Cons c n)
    then show ?case
      by (cases n) (auto dest: digit_not_marker)
  qed
  then show "number n \<Longrightarrow> lex_ok Marker (n @ x) = lex_ok Digit x"
    by (simp add: number_def)
qed

lemma lex_ok_location: "number n \<Longrightarrow> lex_ok Delimiter (CHR ''L'' # n @ x) = lex_ok Digit x"
  by (simp add: lex_ok_number)

lemma lex_ok_line_prefix:
  "line_prefix p \<Longrightarrow> lex_ok Delimiter (p @ x) = lex_ok Delimiter x"
  by (induction rule: line_prefix.induct)
     (simp add: lex_ok_number lex_ok_blanks_then lex_ok_blanks sign_class)

text \<open>A statement and the end of its line, before the rest \<open>x\<close> of the text.\<close>

lemma lex_ok_statement_terminated:
  assumes "statement st" and "blanks b" and "t \<in> set terminators"
  shows "lex_ok Delimiter (st @ b @ t # x) = lex_ok Delimiter x"
  using assms terminator_class [OF assms(3)]
  by (induction rule: statement.induct)
     (simp_all add: lex_ok_number lex_ok_blanks_then lex_ok_blanks sign_class)

lemma lex_ok_statement_last:
  assumes "statement st" and "blanks b"
  shows "lex_ok Delimiter (st @ b)"
  using assms
  by (induction rule: statement.induct)
     (simp_all add: lex_ok_number lex_ok_blanks_then lex_ok_blanks lex_ok_blanks_only sign_class)

lemma lex_ok_line_terminated:
  "line False l \<Longrightarrow> lex_ok Delimiter (l @ x) = lex_ok Delimiter x"
proof (induction "False" l rule: line.induct)
  case (plain st le)
  from plain(2) obtain b t where "le = b @ [t]" "blanks b" "t \<in> set terminators"
    by (auto elim: line_end.cases)
  with plain(1) show ?case
    by (simp add: lex_ok_statement_terminated)
next
  case (numbered p st le)
  from numbered(3) obtain b t where "le = b @ [t]" "blanks b" "t \<in> set terminators"
    by (auto elim: line_end.cases)
  with numbered(1,2) show ?case
    by (simp add: lex_ok_line_prefix lex_ok_statement_terminated)
qed

lemma lex_ok_line_last: "line True l \<Longrightarrow> lex_ok Delimiter l"
proof (induction "True" l rule: line.induct)
  case (plain st le)
  from plain(2) have "blanks le" by (auto elim: line_end.cases)
  with plain(1) show ?case by (simp add: lex_ok_statement_last)
next
  case (numbered p st le)
  from numbered(3) have "blanks le" by (auto elim: line_end.cases)
  with numbered(1,2) show ?case
    by (simp add: lex_ok_line_prefix lex_ok_statement_last)
qed

lemma lex_ok_lines:
  "lines k e s \<Longrightarrow> (if e then lex_ok Delimiter s
                     else (\<forall>x. lex_ok Delimiter (s @ x) = lex_ok Delimiter x))"
proof (induction rule: lines.induct)
  case (none g)
  then show ?case by (simp add: lex_ok_gap)
next
  case (more k s l g)
  then show ?case by (simp add: lex_ok_line_terminated lex_ok_gap)
next
  case (last k s l)
  then show ?case by (simp add: lex_ok_line_last)
qed

lemma program_text_lex_ok: "program_text s \<Longrightarrow> lex_ok Delimiter s"
proof -
  assume "program_text s"
  then obtain k e where l: "lines k e s" by (auto simp: program_text_def)
  show ?thesis
  proof (cases e)
    case True
    with lex_ok_lines [OF l] show ?thesis by simp
  next
    case False
    with lex_ok_lines [OF l] have "\<forall>x. lex_ok Delimiter (s @ x) = lex_ok Delimiter x" by simp
    then have "lex_ok Delimiter (s @ []) = lex_ok Delimiter []" by (rule spec)
    then show ?thesis by simp
  qed
qed

subsection \<open>The scan for the capacities\<close>

lemma wrap_0: "wrap 0 = 0"
  by (simp add: wrap_def)

lemma wrapped_decimal:
  "foldl (\<lambda>v c. wrap (wrap (v * 10) + digit_value c)) 0 ds = wrap (decimal ds)"
  using foldl_wrap [of 0 ds] by (simp only: decimal_def wrap_0)

lemma max_index_wrapped_dropWhile:
  "m = CHR ''L'' \<or> m = CHR ''R'' \<Longrightarrow>
   max_index_wrapped m (dropWhile is_digit cs) = max_index_wrapped m cs"
  by (induction cs) (auto dest: digit_not_marker)

lemma lex_ok_after_delimiter:
  "lex_ok Delimiter cs \<Longrightarrow> takeWhile is_digit cs = [] \<and> dropWhile is_digit cs = cs"
  by (cases cs) (auto dest: digit_not_marker split: if_splits)

lemma raise_maxima_fields:
  "maxReg (raise_maxima st) = max (maxReg st) (if readInt st = READ_REG then result st else 0)"
  "maxLoc (raise_maxima st) = max (maxLoc st) (if readInt st = READ_LOC then result st else 0)"
  by (auto simp: raise_maxima_def)

text \<open>
  What the scan of the rest of a text adds to the two maxima: the index being read, when
  its digits end, and the indices of the markers that follow.
\<close>

lemma scan_rest:
  assumes "lex_ok k cs" and "k \<noteq> Digit \<longrightarrow> result st = 0"
    and "k \<noteq> Delimiter \<longrightarrow> readInt st \<noteq> SKIP"
  shows "maxReg (raise_maxima (getMaxArgs_loop cs st)) =
           max (maxReg st)
             (max (if readInt st = READ_REG
                   then foldl (\<lambda>v c. wrap (wrap (v * 10) + digit_value c)) (result st)
                          (takeWhile is_digit cs)
                   else 0)
                (max_index_wrapped CHR ''R'' (dropWhile is_digit cs))) \<and>
         maxLoc (raise_maxima (getMaxArgs_loop cs st)) =
           max (maxLoc st)
             (max (if readInt st = READ_LOC
                   then foldl (\<lambda>v c. wrap (wrap (v * 10) + digit_value c)) (result st)
                          (takeWhile is_digit cs)
                   else 0)
                (max_index_wrapped CHR ''L'' (dropWhile is_digit cs)))"
  using assms
proof (induction cs arbitrary: k st)
  case Nil
  then show ?case by (simp add: raise_maxima_fields)
next
  case (Cons c cs)
  consider (marker) "c = CHR ''L'' \<or> c = CHR ''R''"
    | (digit) "c \<noteq> CHR ''L''" "c \<noteq> CHR ''R''" "is_digit c"
    | (delimiter) "c \<noteq> CHR ''L''" "c \<noteq> CHR ''R''" "\<not> is_digit c"
    by blast
  then show ?case
  proof cases
    case marker
    then have nodigit: "\<not> is_digit c" using digit_not_marker by blast
    from marker Cons.prems have zero: "result st = 0" and ok: "lex_ok Marker cs"
      by auto
    have rest: "max_index_wrapped CHR ''R'' (dropWhile is_digit cs) = max_index_wrapped CHR ''R'' cs"
      "max_index_wrapped CHR ''L'' (dropWhile is_digit cs) = max_index_wrapped CHR ''L'' cs"
      by (simp_all add: max_index_wrapped_dropWhile)
    from marker show ?thesis
    proof
      assume c: "c = CHR ''L''"
      let ?st = "st\<lparr>readInt := READ_LOC\<rparr>"
      have "Marker \<noteq> Digit \<longrightarrow> result ?st = 0" and "Marker \<noteq> Delimiter \<longrightarrow> readInt ?st \<noteq> SKIP"
        using zero by auto
      from Cons.IH [OF ok this]
      have "maxReg (raise_maxima (getMaxArgs_loop cs ?st)) =
              max (maxReg st) (max_index_wrapped CHR ''R'' cs)"
        and "maxLoc (raise_maxima (getMaxArgs_loop cs ?st)) =
              max (maxLoc st) (max (wrap (decimal (takeWhile is_digit cs)))
                (max_index_wrapped CHR ''L'' cs))"
        by (simp_all add: zero wrapped_decimal rest)
      moreover have "scan_char c st = ?st"
        by (simp add: scan_char_def c)
      moreover from nodigit have "\<not> is_digit c" .
      ultimately show ?thesis
        unfolding c by (simp add: zero)
    next
      assume c: "c = CHR ''R''"
      let ?st = "st\<lparr>readInt := READ_REG\<rparr>"
      have "Marker \<noteq> Digit \<longrightarrow> result ?st = 0" and "Marker \<noteq> Delimiter \<longrightarrow> readInt ?st \<noteq> SKIP"
        using zero by auto
      from Cons.IH [OF ok this]
      have "maxLoc (raise_maxima (getMaxArgs_loop cs ?st)) =
              max (maxLoc st) (max_index_wrapped CHR ''L'' cs)"
        and "maxReg (raise_maxima (getMaxArgs_loop cs ?st)) =
              max (maxReg st) (max (wrap (decimal (takeWhile is_digit cs)))
                (max_index_wrapped CHR ''R'' cs))"
        by (simp_all add: zero wrapped_decimal rest)
      moreover have "scan_char c st = ?st"
        by (simp add: scan_char_def c)
      moreover from nodigit have "\<not> is_digit c" .
      ultimately show ?thesis
        unfolding c by (simp add: zero)
    qed
  next
    case digit
    with Cons.prems have mode: "readInt st \<noteq> SKIP" and ok: "lex_ok Digit cs"
      by auto
    let ?st = "scan_char c st"
    from digit mode have st: "?st = st\<lparr>result := wrap (wrap (result st * 10) + digit_value c)\<rparr>"
      by (simp add: scan_char_def is_digit_def)
    have "Digit \<noteq> Digit \<longrightarrow> result ?st = 0" and "Digit \<noteq> Delimiter \<longrightarrow> readInt ?st \<noteq> SKIP"
      using mode st by auto
    from Cons.IH [OF ok this] digit show ?thesis
      by (simp add: st)
  next
    case delimiter
    with Cons.prems have ok: "lex_ok Delimiter cs"
      by auto
    then have rest: "takeWhile is_digit cs = []" "dropWhile is_digit cs = cs"
      by (simp_all add: lex_ok_after_delimiter)
    let ?st = "scan_char c st"
    from delimiter have st: "?st = (if result st \<noteq> 0
        then (raise_maxima st)\<lparr>result := 0, readInt := SKIP\<rparr> else st)"
      by (simp add: scan_char_def is_digit_def)
    have "Delimiter \<noteq> Digit \<longrightarrow> result ?st = 0" and "Delimiter \<noteq> Delimiter \<longrightarrow> readInt ?st \<noteq> SKIP"
      using st by auto
    from Cons.IH [OF ok this] delimiter rest show ?thesis
      by (auto simp: st raise_maxima_fields)
  qed
qed

lemma getMaxArgs_wrapped:
  assumes "lex_ok Delimiter text"
  shows "getMaxArgs text =
         (wrap (max_index_wrapped CHR ''R'' text + 1), wrap (max_index_wrapped CHR ''L'' text + 1))"
proof -
  from assms have rest: "takeWhile is_digit text = []" "dropWhile is_digit text = text"
    by (simp_all add: lex_ok_after_delimiter)
  let ?st = "\<lparr>readInt = SKIP, result = 0, maxReg = 0, maxLoc = 0\<rparr>"
  have "Delimiter \<noteq> Digit \<longrightarrow> result ?st = 0" "Delimiter \<noteq> Delimiter \<longrightarrow> readInt ?st \<noteq> SKIP"
    by simp_all
  from scan_rest [OF assms this] rest show ?thesis
    by (simp add: getMaxArgs_def Let_def)
qed

lemma max_index_wrapped_exact:
  "max_index m text < 18446744073709551616 \<Longrightarrow> max_index_wrapped m text = max_index m text"
  by (induction "text") (auto simp: wrap_def)

lemma getMaxArgs_exact:
  assumes "lex_ok Delimiter text"
    and "max_index CHR ''R'' text < size_t_max" and "max_index CHR ''L'' text < size_t_max"
  shows "getMaxArgs text = spec_capacities text"
  using assms
  by (simp add: getMaxArgs_wrapped max_index_wrapped_exact spec_capacities_def size_t_max_def
      wrap_def)

section \<open>The claims about the parser\<close>






text \<open>
  C5. The claim: a slot whose \<^verbatim>\<open>L<n>:\<close> prefix has a number different from the index of
  the slot makes \<^verbatim>\<open>parse\<close> fail. \<^verbatim>\<open>parseInt\<close> accumulates the number in a
  \<^verbatim>\<open>std::size_t\<close>, so it compares the number modulo \<open>2 ^ 64\<close>: the prefix
  \<^verbatim>\<open>L18446744073709551616:\<close> is accepted in slot 0.
\<close>

theorem line_number_wraps_counterexample:
  "decimal ''18446744073709551616'' \<noteq> 0 \<and>
   parse 1 1 ''L18446744073709551616: HALT'' =
     Inr \<lparr>maxRegisters = 1, instructions = [instruction_halt]\<rparr>"
  by code_simp

text \<open>
  C5, amended. In a slot the parser reaches, of index \<open>i\<close>, that starts with \<^verbatim>\<open>L\<close>: if the
  number the following digits denote, reduced modulo \<open>2 ^ 64\<close>, is not \<open>i\<close>, then
  \<^verbatim>\<open>parse\<close> fails, with the error of the wrong line number (or of the missing number
  when no digit follows).
\<close>

theorem line_number_mismatch_rejected:
  assumes "slot_reached input n i current instr" and "i < n" and "current < length input"
    and "input ! current = CHR ''L''"
    and "wrap (decimal (takeWhile is_digit (drop (Suc current) input))) \<noteq> i"
  shows "parse r n input =
         Inl (if takeWhile is_digit (drop (Suc current) input) = [] then NoNumberSpecified
              else IncorrectLineNumber)"
proof (rule slot_error_aborts [OF assms(1,2)])
  from assms(3) show "\<not> eof input current" by (simp add: eof_def)
  from assms(3-5) show "parse_slot input i current =
      Inl (if takeWhile is_digit (drop (Suc current) input) = [] then NoNumberSpecified
           else IncorrectLineNumber)"
    by (rule prefix_mismatch)
qed

lemma out_of_order_slot:
  "slot_reached out_of_order_text 2 1 9 [instruction_halt, instruction_halt]"
proof -
  have start: "skipLinesAndSpaces out_of_order_text 0 = 0"
    by code_simp
  have slot: "parse_slot out_of_order_text 0 0 = Inr (instruction_halt, 9)"
    by code_simp
  have "slot_reached out_of_order_text 2 0 0 (replicate 2 instruction_halt)"
    using slot_reached.first [of out_of_order_text 2] by (simp only: start)
  from slot_reached.pass [OF this _ _ slot] show ?thesis
    by (simp add: eof_def out_of_order_text_def numeral_2_eq_2)
qed

theorem line_number_mismatch_rejected_witness:
  "slot_reached out_of_order_text 2 1 9 [instruction_halt, instruction_halt] \<and>
   out_of_order_text ! 9 = CHR ''L'' \<and>
   takeWhile is_digit (drop 10 out_of_order_text) = ''2'' \<and>
   wrap (decimal ''2'') = 2 \<and>
   parse 1 2 out_of_order_text = Inl IncorrectLineNumber"
proof -
  have L: "out_of_order_text ! 9 = CHR ''L''"
    by code_simp
  have ds: "takeWhile is_digit (drop (Suc 9) out_of_order_text) = ''2''"
    by code_simp
  have two: "wrap (decimal ''2'') = 2"
    by code_simp
  have len: "9 < length out_of_order_text"
    by (simp add: out_of_order_text_def)
  from line_number_mismatch_rejected [OF out_of_order_slot _ len L, of 1] ds two
  have "parse 1 2 out_of_order_text = Inl IncorrectLineNumber"
    by simp
  with out_of_order_slot L ds two show ?thesis by simp
qed

text \<open>
  C7. The claim: every line that is only a terminator (\<^verbatim>\<open>;\<close>, newline or the end of the
  input) takes a slot, which holds \<^verbatim>\<open>HALT\<close>. The parser skips newlines, tabs and spaces
  before every slot (\<^verbatim>\<open>skipLinesAndSpaces\<close>), so a line that is only a newline takes no
  slot: in the text below the second line is blank and slot 1 holds the increment of the
  third line.
\<close>

theorem blank_line_takes_no_slot_counterexample:
  "parse 1 2 blank_line_text =
     Inr \<lparr>maxRegisters = 1, instructions = [instruction_incr 0 1, instruction_incr 0 0]\<rparr> \<and>
   instruction_incr 0 0 \<noteq> instruction_halt"
  by code_simp

text \<open>
  C7, amended. In a slot the parser reaches, when the statement (after the optional line
  number) starts with one of the terminators \<^verbatim>\<open>;\<close>, newline or NUL and at least two more
  characters follow it, the slot holds \<^verbatim>\<open>HALT\<close> in the program parsed. A slot never starts
  with a newline: lines that are only newlines are skipped and take no slot.
\<close>

theorem empty_statement_stores_halt:
  assumes "slot_reached input n i current instr" and "i < n" and "current < length input"
    and "parse_prefix input i current = Inr c1"
    and "c1 + 3 \<le> length input" and "input ! c1 \<in> set terminators"
    and "parse r n input = Inr P"
  shows "parse_slot input i current = Inr (instruction_halt, skipLinesAndSpaces input (Suc c1)) \<and>
         instructions P ! i = instruction_halt \<and> input ! current \<noteq> newline"
proof -
  from assms(4) statement_at_terminator [OF assms(5,6)]
  have slot: "parse_slot input i current =
              Inr (instruction_halt, skipLinesAndSpaces input (Suc c1))"
    by (simp add: parse_slot_def)
  from assms(3) have "\<not> eof input current" by (simp add: eof_def)
  from slot_stored [OF assms(1,2) this slot assms(7)]
  have "instructions P ! i = instruction_halt" .
  moreover from slot_reached_not_blank [OF assms(1,3)] have "input ! current \<noteq> newline"
    by simp
  ultimately show ?thesis using slot by simp
qed

lemma empty_statement_slot:
  "slot_reached empty_statement_text 3 1 10
     [instruction_incr 0 1, instruction_halt, instruction_halt]"
proof -
  have start: "skipLinesAndSpaces empty_statement_text 0 = 0"
    by code_simp
  have slot: "parse_slot empty_statement_text 0 0 = Inr (instruction_incr 0 1, 10)"
    by code_simp
  have "slot_reached empty_statement_text 3 0 0 (replicate 3 instruction_halt)"
    using slot_reached.first [of empty_statement_text 3] by (simp only: start)
  from slot_reached.pass [OF this _ _ slot] show ?thesis
    by (simp add: eof_def empty_statement_text_def numeral_3_eq_3)
qed

theorem empty_statement_stores_halt_witness:
  "slot_reached empty_statement_text 3 1 10
     [instruction_incr 0 1, instruction_halt, instruction_halt] \<and>
   empty_statement_text ! 10 = CHR '';'' \<and>
   parse 1 3 empty_statement_text =
     Inr \<lparr>maxRegisters = 1,
          instructions = [instruction_incr 0 1, instruction_halt, instruction_incr 0 0]\<rparr> \<and>
   parse_slot empty_statement_text 1 10 = Inr (instruction_halt, 11) \<and>
   [instruction_incr 0 1, instruction_halt, instruction_incr 0 0] ! 1 = instruction_halt"
proof -
  have semi: "empty_statement_text ! 10 = CHR '';''"
    by code_simp
  have pre: "parse_prefix empty_statement_text 1 10 = Inr 10"
    by code_simp
  have skip: "skipLinesAndSpaces empty_statement_text (Suc 10) = 11"
    by code_simp
  have whole: "parse 1 3 empty_statement_text =
     Inr \<lparr>maxRegisters = 1,
          instructions = [instruction_incr 0 1, instruction_halt, instruction_incr 0 0]\<rparr>"
    by code_simp
  have len: "10 < length empty_statement_text" "10 + 3 \<le> length empty_statement_text"
    by (simp_all add: empty_statement_text_def)
  have "empty_statement_text ! 10 \<in> set terminators"
    by (simp add: semi terminators_def)
  from empty_statement_stores_halt [OF empty_statement_slot _ len(1) pre len(2) this whole]
  show ?thesis
    using empty_statement_slot semi whole skip by simp
qed

text \<open>
  C9. When the loop of \<^verbatim>\<open>parse\<close> ends after \<open>k\<close> slots with slots left over, the input
  is exhausted, every slot from \<open>k\<close> on still holds the default instruction \<^verbatim>\<open>HALT\<close>, and
  a run whose program counter is at such a slot leaves the loop of \<^verbatim>\<open>exec\<close> at once,
  with its registers as they are.
\<close>

theorem unfilled_slots_halt:
  fixes s :: "'a::len word exec_state"
  assumes "parse_loop input n 0 (skipLinesAndSpaces input 0) (replicate n instruction_halt) =
           Inr (k, c, instr)"
    and "k \<le> j" and "j < n" and "\<not> halt s" and "loc s = j"
  shows "eof input c \<and>
         parse r n input = Inr \<lparr>maxRegisters = r, instructions = instr\<rparr> \<and>
         instr ! j = instruction_halt \<and>
         exec_loop \<lparr>maxRegisters = r, instructions = instr\<rparr> s = Some (Inr (s\<lparr>halt := True\<rparr>))"
proof -
  let ?p = "\<lparr>maxRegisters = r, instructions = instr\<rparr>"
  from parse_loop_result [OF assms(1)]
  have len: "length instr = n" and keep: "drop k instr = drop k (replicate n instruction_halt)"
    and ended: "k < n \<longrightarrow> eof input c"
    by simp_all
  from keep have "drop k instr ! (j - k) = drop k (replicate n instruction_halt) ! (j - k)"
    by simp
  with assms(2,3) len have slot: "instr ! j = instruction_halt"
    by simp
  from slot assms(3,5) len have "exec_body ?p s = Inr (s\<lparr>halt := True\<rparr>)"
    by (simp add: exec_body_def dispatch_def instrCount_def instruction_halt_def)
  with assms(4) have "exec_loop ?p s = exec_loop ?p (s\<lparr>halt := True\<rparr>)"
    by (rule exec_loop_step)
  also have "\<dots> = Some (Inr (s\<lparr>halt := True\<rparr>))"
    by (rule exec_loop_halted) simp
  finally show ?thesis
    using assms(1-3) ended slot by (simp add: parse_def)
qed

theorem unfilled_slots_halt_witness:
  "parse_loop ''R0+ -> L1'' 3 0 (skipLinesAndSpaces ''R0+ -> L1'' 0)
     (replicate 3 instruction_halt) =
     Inr (1, 9, [instruction_incr 0 1, instruction_halt, instruction_halt]) \<and>
   parse 2 3 ''R0+ -> L1'' =
     Inr \<lparr>maxRegisters = 2,
          instructions = [instruction_incr 0 1, instruction_halt, instruction_halt]\<rparr> \<and>
   exec_loop \<lparr>maxRegisters = 2,
              instructions = [instruction_incr 0 1, instruction_halt, instruction_halt]\<rparr>
     \<lparr>halt = False, loc = 1, values = [1, 0 :: 8 word]\<rparr> =
     Some (Inr \<lparr>halt = True, loc = 1, values = [1, 0]\<rparr>)"
proof -
  have loop: "parse_loop ''R0+ -> L1'' 3 0 (skipLinesAndSpaces ''R0+ -> L1'' 0)
     (replicate 3 instruction_halt) =
     Inr (1, 9, [instruction_incr 0 1, instruction_halt, instruction_halt])"
    by code_simp
  from unfilled_slots_halt [OF loop, of 1 "\<lparr>halt = False, loc = 1, values = [1, 0 :: 8 word]\<rparr>" 2]
  show ?thesis using loop by simp
qed

text \<open>
  C6. The claim: every text that violates the grammar makes \<^verbatim>\<open>parse\<close> fail. The loop of
  \<^verbatim>\<open>parse\<close> stops when its slots are filled and looks at nothing after them: a text
  whose second line is not of the grammar parses at capacity 1.
\<close>

theorem trailing_text_not_checked_counterexample:
  "\<not> program_text ''HALT;@@@@'' \<and>
   parse 1 1 ''HALT;@@@@'' = Inr \<lparr>maxRegisters = 1, instructions = [instruction_halt]\<rparr>"
proof -
  have "CHR ''@'' \<in> set ''HALT;@@@@''"
    by simp
  then have "\<not> program_text ''HALT;@@@@''"
    using program_text_no_at by blast
  moreover have "parse 1 1 ''HALT;@@@@'' =
      Inr \<lparr>maxRegisters = 1, instructions = [instruction_halt]\<rparr>"
    by code_simp
  ultimately show ?thesis by simp
qed

lemma missing_arrow_slot: "parse_slot ''L0: R1+ L1'' 0 0 = Inl ExpectedArrow"
  by code_simp

lemma missing_arrow_start: "skipLinesAndSpaces ''L0: R1+ L1'' 0 = 0"
  by code_simp

lemma halt_then_label_slot: "slot_reached ''HALT;L7:HALT'' 1 1 5 [instruction_halt]"
proof -
  have start: "skipLinesAndSpaces ''HALT;L7:HALT'' 0 = 0"
    by code_simp
  have slot: "parse_slot ''HALT;L7:HALT'' 0 0 = Inr (instruction_halt, 5)"
    by code_simp
  have "slot_reached ''HALT;L7:HALT'' 1 0 0 (replicate 1 instruction_halt)"
    using slot_reached.first [of "''HALT;L7:HALT''" 1] by (simp only: start)
  from slot_reached.pass [OF this _ _ slot] show ?thesis
    by (simp add: eof_def)
qed

text \<open>
  C6, amended. The text \<^verbatim>\<open>L0: R1+ L1\<close> fails with the error of the missing arrow at
  every capacity above 0. A text that does not read as lines at capacity \<open>n\<close> (it is not
  at most \<open>n\<close> lines of the grammar and does not begin with \<open>n\<close> lines of the grammar)
  fails to parse. When \<^verbatim>\<open>parse\<close> succeeds, the table has all its \<open>n\<close> slots, and where the
  loop stopped, after \<open>k\<close> slots at position \<open>c\<close>, the text before \<open>c\<close> is \<open>k\<close> lines of the
  grammar; the loop stops before the end of the text only when all \<open>n\<close> slots are filled,
  so a text that parses at a capacity above its length is a text of the grammar. The first
  slot that fails ends the parse with its error: the result is an error or a whole table.
  What follows the \<open>n\<close>-th line is not examined: once \<open>n\<close> slots are read up to position
  \<open>c\<close>, every text with the same first \<open>c + 3\<close> characters parses to the same program.
\<close>

theorem grammar_violation_rejected:
  "(0 < n \<longrightarrow> parse r n ''L0: R1+ L1'' = Inl ExpectedArrow) \<and>
   (\<not> reads_as_lines n input \<longrightarrow> (\<exists>err. parse r n input = Inl err)) \<and>
   (\<forall>P. parse r n input = Inr P \<longrightarrow>
      length (instructions P) = n \<and>
      (\<exists>k c e. parse_loop input n 0 (skipLinesAndSpaces input 0)
                  (replicate n instruction_halt) = Inr (k, c, instructions P) \<and>
         k \<le> n \<and> c \<le> length input \<and> lines k e (take c input) \<and>
         (e \<longrightarrow> c = length input) \<and> (k < n \<longrightarrow> c = length input)) \<and>
      (length input < n \<longrightarrow> program_text input)) \<and>
   (\<forall>i c instr e. slot_reached input n i c instr \<and> i < n \<and> \<not> eof input c \<and>
      parse_slot input i c = Inl e \<longrightarrow> parse r n input = Inl e) \<and>
   (\<forall>c instr input'. slot_reached input n n c instr \<and> c + 3 \<le> length input \<and>
      c + 3 \<le> length input' \<and> take (c + 3) input' = take (c + 3) input \<longrightarrow>
      parse r n input' = Inr \<lparr>maxRegisters = r, instructions = instr\<rparr>)"
proof (intro conjI allI impI)
  assume "0 < n"
  have "slot_reached ''L0: R1+ L1'' n 0 0 (replicate n instruction_halt)"
    using slot_reached.first [of "''L0: R1+ L1''" n] by (simp only: missing_arrow_start)
  from slot_error_aborts [OF this \<open>0 < n\<close> _ missing_arrow_slot]
  show "parse r n ''L0: R1+ L1'' = Inl ExpectedArrow"
    by (simp add: eof_def)
next
  assume "\<not> reads_as_lines n input"
  with parse_reads_as_lines [of r n input] show "\<exists>err. parse r n input = Inl err"
    by (cases "parse r n input") auto
next
  fix P assume ok: "parse r n input = Inr P"
  then obtain k c where
    loop: "parse_loop input n 0 (skipLinesAndSpaces input 0) (replicate n instruction_halt) =
           Inr (k, c, instructions P)"
    by (auto simp: parse_def split: sum.splits)
  from parse_loop_stops_at_lines [OF loop]
  show "length (instructions P) = n" by simp
  from parse_loop_stops_at_lines [OF loop] loop
  show "\<exists>k c e. parse_loop input n 0 (skipLinesAndSpaces input 0)
           (replicate n instruction_halt) = Inr (k, c, instructions P) \<and>
         k \<le> n \<and> c \<le> length input \<and> lines k e (take c input) \<and>
         (e \<longrightarrow> c = length input) \<and> (k < n \<longrightarrow> c = length input)"
    by blast
next
  fix P assume "parse r n input = Inr P" and "length input < n"
  with parse_follows_grammar [of r n input P] show "program_text input"
    by blast
next
  fix i c instr e
  assume "slot_reached input n i c instr \<and> i < n \<and> \<not> eof input c \<and>
          parse_slot input i c = Inl e"
  then show "parse r n input = Inl e"
    by (auto intro: slot_error_aborts)
next
  fix c instr input'
  assume "slot_reached input n n c instr \<and> c + 3 \<le> length input \<and>
          c + 3 \<le> length input' \<and> take (c + 3) input' = take (c + 3) input"
  then show "parse r n input' = Inr \<lparr>maxRegisters = r, instructions = instr\<rparr>"
    by (intro trailing_text_ignored [of input n c instr]) simp_all
qed

theorem grammar_violation_rejected_witness:
  "parse 1 1 ''L0: R1+ L1'' = Inl ExpectedArrow \<and>
   \<not> reads_as_lines 2 ''HALT;@@@@'' \<and>
   (\<exists>err. parse 1 2 ''HALT;@@@@'' = Inl err) \<and>
   parse 3 5 example_text = Inr example_program \<and>
   length (instructions example_program) = 5 \<and>
   (\<exists>k c e. parse_loop example_text 5 0 (skipLinesAndSpaces example_text 0)
               (replicate 5 instruction_halt) = Inr (k, c, instructions example_program) \<and>
      lines k e (take c example_text) \<and> (e \<longrightarrow> c = length example_text)) \<and>
   slot_reached ''HALT;L7:HALT'' 1 1 5 [instruction_halt] \<and>
   parse 1 1 ''HALT;L7:@@@@'' = Inr \<lparr>maxRegisters = 1, instructions = [instruction_halt]\<rparr>"
proof -
  have ok: "parse 3 5 example_text = Inr example_program"
    using make_example by (simp add: make_def)
  from grammar_violation_rejected [where n = 1 and r = 1]
  have arrow: "parse 1 1 ''L0: R1+ L1'' = Inl ExpectedArrow"
    by simp
  from grammar_violation_rejected [where n = 2 and r = 1 and input = "''HALT;@@@@''"]
    garbage_not_read
  have garbage: "\<exists>err. parse 1 2 ''HALT;@@@@'' = Inl err"
    by blast
  from grammar_violation_rejected [where n = 5 and r = 3 and input = example_text] ok
  have read: "length (instructions example_program) = 5 \<and>
      (\<exists>k c e. parse_loop example_text 5 0 (skipLinesAndSpaces example_text 0)
                  (replicate 5 instruction_halt) = Inr (k, c, instructions example_program) \<and>
         lines k e (take c example_text) \<and> (e \<longrightarrow> c = length example_text))"
    by blast
  have "5 + 3 \<le> length ''HALT;L7:HALT'' \<and> 5 + 3 \<le> length ''HALT;L7:@@@@'' \<and>
        take (5 + 3) ''HALT;L7:@@@@'' = take (5 + 3) ''HALT;L7:HALT''"
    by simp
  with grammar_violation_rejected [where n = 1 and r = 1 and input = "''HALT;L7:HALT''"]
    halt_then_label_slot
  have tail: "parse 1 1 ''HALT;L7:@@@@'' =
      Inr \<lparr>maxRegisters = 1, instructions = [instruction_halt]\<rparr>"
    by blast
  from arrow garbage_not_read garbage ok read halt_then_label_slot tail show ?thesis
    by blast
qed

lemma wrapping_text_parse_loop:
  "parse_loop ''R18446744073709551615+ -> L0'' 2 0
     (skipLinesAndSpaces ''R18446744073709551615+ -> L0'' 0) (replicate 2 instruction_halt) =
   Inr (1, 28, [instruction_incr 18446744073709551615 0, instruction_halt])"
  by code_simp

text \<open>
  C8. The claim: for every well-formed text \<^verbatim>\<open>getMaxArgs\<close> returns one more than the
  greatest register index and one more than the greatest line index. The scan keeps its
  numbers in \<^verbatim>\<open>std::size_t\<close>: for the register \<open>2 ^ 64 - 1\<close> the count it returns has
  wrapped to 0.
\<close>

theorem getMaxArgs_wraps_counterexample:
  "program_text ''R18446744073709551615+ -> L0'' \<and>
   getMaxArgs ''R18446744073709551615+ -> L0'' = (0, 1) \<and>
   spec_capacities ''R18446744073709551615+ -> L0'' = (18446744073709551616, 1)"
proof -
  have "program_text ''R18446744073709551615+ -> L0''"
    by (rule parse_loop_program_text [OF wrapping_text_parse_loop]) simp
  moreover have "getMaxArgs ''R18446744073709551615+ -> L0'' = (0, 1)"
    by code_simp
  moreover have "spec_capacities ''R18446744073709551615+ -> L0'' = (18446744073709551616, 1)"
    by code_simp
  ultimately show ?thesis by simp
qed

text \<open>
  C8, amended. For every text of the grammar whose register and line indices are all below
  \<open>2 ^ 64 - 1\<close>, \<^verbatim>\<open>getMaxArgs\<close> returns exactly one more than the greatest index after an
  \<^verbatim>\<open>R\<close> and one more than the greatest index after an \<^verbatim>\<open>L\<close> (0 standing for the
  greatest index when there is none). The scan itself checks no syntax: it returns a pair
  for every text.
\<close>

theorem getMaxArgs_capacities:
  assumes "program_text t"
    and "max_index CHR ''R'' t < size_t_max" and "max_index CHR ''L'' t < size_t_max"
  shows "getMaxArgs t = spec_capacities t"
  using program_text_lex_ok [OF assms(1)] assms(2,3) by (rule getMaxArgs_exact)

lemma example_text_parse_loop:
  "parse_loop example_text 6 0 (skipLinesAndSpaces example_text 0)
     (replicate 6 instruction_halt) =
   Inr (5, 77, [instruction_decr 1 1 2, instruction_incr 0 0, instruction_decr 2 3 4,
                instruction_incr 0 2, instruction_halt, instruction_halt])"
  by code_simp

lemma getMaxArgs_checks_no_syntax:
  "getMaxArgs ''L0: R1+ L1'' = (2, 2) \<and> parse 2 2 ''L0: R1+ L1'' = Inl ExpectedArrow"
  by code_simp

theorem getMaxArgs_capacities_witness:
  "program_text example_text \<and>
   max_index CHR ''R'' example_text = 2 \<and> max_index CHR ''L'' example_text = 4 \<and>
   getMaxArgs example_text = (3, 5)"
proof -
  have wf: "program_text example_text"
    by (rule parse_loop_program_text [OF example_text_parse_loop]) simp
  have r: "max_index CHR ''R'' example_text = 2" and l: "max_index CHR ''L'' example_text = 4"
    by code_simp+
  from getMaxArgs_capacities [OF wf] r l
  have "getMaxArgs example_text = spec_capacities example_text"
    by (simp add: size_t_max_def)
  with r l wf show ?thesis
    by (simp add: spec_capacities_def)
qed

end
